theory Spec2Isabelle
  imports Complex_Main
begin

section \<open>Selective Repeat ARQ simulator (03_selective_repeat_arq/sr_arq_simulator.py)\<close>

text \<open>
  The simulator keeps one shared object (class \<open>SelectiveRepeatARQ\<close>) and runs
  three kinds of threads against it: the main thread (\<open>run\<close>), one thread per call of
  \<open>send_frame\<close>, and one daemon thread per call of \<open>start_timer\<close>. Every access
  to the object's fields made by \<open>receive_ack\<close>, by the timer callback and by the
  admission loop of \<open>run\<close> sits inside \<open>with self.lock\<close>, so each of these bodies is
  one atomic step of the model below. Python integers are unbounded, hence \<open>int\<close>;
  a Python float is the \<open>real\<close> it denotes, and each float operation is the real
  operation followed by a rounding function that the definitions leave open;
  \<open>time.sleep\<close> is not modelled as elapsed time: a sleeping thread may wake at any
  later step, which contains every schedule the real clock allows.
\<close>

subsection \<open>Python values\<close>

datatype py_error = IndexError

text \<open>The lines the program prints, one constructor per \<open>print\<close> call.\<close>

datatype event =
    PrintStarting
  | PrintSend int
  | PrintLoss int
  | PrintReorder int
  | PrintTimeout int
  | PrintAck int
  | PrintDone

text \<open>\<open>str(n)\<close> for an integer, as the f-string \<open>f"Data{seq_num}"\<close> formats it.\<close>

fun digit_char :: "nat \<Rightarrow> char" where
  "digit_char n = ''0123456789'' ! n"

fun str_nat :: "nat \<Rightarrow> string" where
  "str_nat n = (if n < 10 then [digit_char n] else str_nat (n div 10) @ [digit_char (n mod 10)])"

definition str_int :: "int \<Rightarrow> string" where
  "str_int i = (if i < 0 then CHR ''-'' # str_nat (nat (- i)) else str_nat (nat i))"

text \<open>
  List subscripts, for a read and for a store: a non-negative index below the length
  is the position itself, an index \<open>i\<close> with \<open>-len \<le> i < 0\<close> is the position
  \<open>len + i\<close>, and every other index raises \<open>IndexError\<close>.
\<close>

definition py_index :: "nat \<Rightarrow> int \<Rightarrow> py_error + nat" where
  "py_index len i =
     (if 0 \<le> i then (if i < int len then Inr (nat i) else Inl IndexError)
      else (if - int len \<le> i then Inr (nat (i + int len)) else Inl IndexError))"

definition py_get :: "'a list \<Rightarrow> int \<Rightarrow> py_error + 'a" where
  "py_get xs i = (case py_index (length xs) i of Inl e \<Rightarrow> Inl e | Inr j \<Rightarrow> Inr (xs ! j))"

definition py_set :: "'a list \<Rightarrow> int \<Rightarrow> 'a \<Rightarrow> py_error + 'a list" where
  "py_set xs i v =
     (case py_index (length xs) i of Inl e \<Rightarrow> Inl e | Inr j \<Rightarrow> Inr (xs[j := v]))"

subsection \<open>Configuration constants\<close>

text \<open>
  The literal \<open>0.2\<close> is read as the real \<open>1/5\<close>. The double it denotes is the
  double nearest to \<open>1/5\<close>, so no double lies between the two, and a draw that is a
  double is below the one exactly when it is below the other. The other literals are
  doubles themselves.
\<close>

definition TOTAL_FRAMES :: int where "TOTAL_FRAMES = 10"
definition WINDOW_SIZE :: int where "WINDOW_SIZE = 4"
definition LOSS_PROBABILITY :: real where "LOSS_PROBABILITY = 2 / 10"
definition REORDER_PROBABILITY :: real where "REORDER_PROBABILITY = 2 / 10"
definition TIMEOUT :: real where "TIMEOUT = 2"
definition DELAY_RANGE :: "real \<times> real" where "DELAY_RANGE = (5 / 10, 15 / 10)"

subsection \<open>Classes \<open>Frame\<close> and \<open>SelectiveRepeatARQ\<close>\<close>

record frame =
  seq_num :: int
  data :: string

definition Frame :: "int \<Rightarrow> string \<Rightarrow> frame" where
  "Frame n d = \<lparr>seq_num = n, data = d\<rparr>"

record arq =
  total_frames :: int
  window_size :: int
  base :: int
  next_seq_num :: int
  ack_received :: "bool list"

text \<open>
  \<open>__init__\<close> has no check and no \<open>raise\<close>; \<open>[False] * total_frames\<close> is the empty
  list when \<open>total_frames\<close> is negative, which \<open>nat\<close> gives.
\<close>

definition SelectiveRepeatARQ :: "int \<Rightarrow> int \<Rightarrow> arq" where
  "SelectiveRepeatARQ tf ws =
     \<lparr>total_frames = tf, window_size = ws, base = 0, next_seq_num = 0,
      ack_received = replicate (nat tf) False\<rparr>"

subsection \<open>\<open>receive_ack\<close>\<close>

text \<open>
  The inner \<open>while self.base < self.total_frames and self.ack_received[self.base]\<close>.
  An exception leaves the object as it is at the raise, so the error carries the state.
\<close>

function slide :: "arq \<Rightarrow> py_error \<times> arq + arq" where
  "slide a =
     (if base a < total_frames a then
        (case py_get (ack_received a) (base a) of
           Inl e \<Rightarrow> Inl (e, a)
         | Inr acked \<Rightarrow> if acked then slide (a\<lparr>base := base a + 1\<rparr>) else Inr a)
      else Inr a)"
  by pat_completeness auto
termination
  by (relation "measure (\<lambda>a. nat (total_frames a - base a))") auto

declare slide.simps [simp del]

text \<open>
  The body of \<open>receive_ack\<close> under the lock. The result is the object after the call
  and the lines printed; \<open>Inl\<close> is an uncaught exception, with the object and the
  lines printed up to the raise.
\<close>

definition receive_ack :: "arq \<Rightarrow> int \<Rightarrow> py_error \<times> arq \<times> event list + arq \<times> event list" where
  "receive_ack a n =
     (case py_get (ack_received a) n of
        Inl e \<Rightarrow> Inl (e, a, [])
      | Inr acked \<Rightarrow>
          if acked then Inr (a, [])
          else (case py_set (ack_received a) n True of
                  Inl e \<Rightarrow> Inl (e, a, [])
                | Inr xs \<Rightarrow>
                    (case slide (a\<lparr>ack_received := xs\<rparr>) of
                       Inl (e, a') \<Rightarrow> Inl (e, a', [PrintAck n])
                     | Inr a' \<Rightarrow> Inr (a', [PrintAck n]))))"

subsection \<open>The random source and \<open>send_frame\<close>\<close>

text \<open>
  The module \<open>random\<close> is a stream of draws from \<open>[0, 1)\<close> and a position in it.
  With it comes the rounding of the interpreter's float arithmetic (\<open>rounding\<close>, to the
  nearest double on the machine), which the definitions apply after every float
  operation and of which they assume nothing.
  \<open>random.uniform(a, b)\<close> is \<open>a + (b - a) * random.random()\<close>: a subtraction, a
  product and a sum, each rounded.
\<close>

record rng =
  draws :: "nat \<Rightarrow> real"
  pos :: nat
  rounding :: "real \<Rightarrow> real"

definition random_random :: "rng \<Rightarrow> real \<times> rng" where
  "random_random g = (draws g (pos g), g\<lparr>pos := pos g + 1\<rparr>)"

definition random_uniform :: "rng \<Rightarrow> real \<Rightarrow> real \<Rightarrow> real \<times> rng" where
  "random_uniform g lo hi =
     (case random_random g of (u, g') \<Rightarrow>
        (rounding g (lo + rounding g (rounding g (hi - lo) * u)), g'))"


text \<open>
  \<open>send_frame\<close> up to its \<open>time.sleep(delay)\<close>: the generator after the call, the
  lines printed, and what the thread does next: it has returned (\<open>Dropped\<close>), or it
  sleeps \<open>delay\<close> seconds and then calls \<open>self.receive_ack(frame.seq_num)\<close>
  (\<open>AckAfter delay seq\<close>).
\<close>

datatype send_outcome = Dropped | AckAfter real int

definition send_frame :: "rng \<Rightarrow> frame \<Rightarrow> rng \<times> event list \<times> send_outcome" where
  "send_frame g f =
     (case random_uniform g (fst DELAY_RANGE) (snd DELAY_RANGE) of (delay, g1) \<Rightarrow>
      case random_random g1 of (u, g2) \<Rightarrow>
        if u < LOSS_PROBABILITY then (g2, [PrintLoss (seq_num f)], Dropped)
        else
          (case random_random g2 of (v, g3) \<Rightarrow>
             if v < REORDER_PROBABILITY then
               (case random_uniform g3 1 2 of (extra, g4) \<Rightarrow>
                  (g4, [PrintReorder (seq_num f)],
                   AckAfter (rounding g (delay + extra)) (seq_num f)))
             else (g3, [], AckAfter delay (seq_num f))))"


subsection \<open>The timer callback\<close>

text \<open>
  The body of \<open>timer_thread\<close> under the lock, after its \<open>time.sleep(TIMEOUT)\<close>: the
  lines printed and the frames for which a new \<open>send_frame\<close> thread is started.
  It contains no call of \<open>start_timer\<close>.
\<close>

definition timer_thread :: "arq \<Rightarrow> int \<Rightarrow> py_error + event list \<times> frame list" where
  "timer_thread a n =
     (case py_get (ack_received a) n of
        Inl e \<Rightarrow> Inl e
      | Inr acked \<Rightarrow>
          if \<not> acked then Inr ([PrintTimeout n], [Frame n (''Data'' @ str_int n)])
          else Inr ([], []))"

subsection \<open>The running program\<close>

text \<open>
  A \<open>send_frame\<close> thread has either just been started with its frame, or has made its
  draws and sleeps before calling \<open>receive_ack\<close>. The main thread is before its first
  \<open>print\<close>, at the test of the outer \<open>while\<close>, about to take the lock, or has
  returned from \<open>run\<close>.
\<close>

datatype sender = Started frame | Sleeping real int

datatype main_pc = AtStart | AtLoopTest | AtLock | Finished

record system =
  shared :: arq
  pc :: main_pc
  senders :: "sender list"
  timers :: "int list"
  printed :: "event list"
  uncaught :: "py_error list"

definition start_timer :: "system \<Rightarrow> int \<Rightarrow> system" where
  "start_timer s n = s\<lparr>timers := timers s @ [n]\<rparr>"

text \<open>The admission loop of \<open>run\<close>, executed with the lock held.\<close>

function admit_loop :: "system \<Rightarrow> system" where
  "admit_loop s =
     (let a = shared s in
      if next_seq_num a < base a + window_size a \<and> next_seq_num a < total_frames a then
        (let f = Frame (next_seq_num a) (''Data'' @ str_int (next_seq_num a));
             s1 = s\<lparr>printed := printed s @ [PrintSend (seq_num f)]\<rparr>;
             s2 = s1\<lparr>senders := senders s1 @ [Started f]\<rparr>;
             s3 = start_timer s2 (seq_num f)
         in admit_loop (s3\<lparr>shared := a\<lparr>next_seq_num := next_seq_num a + 1\<rparr>\<rparr>))
      else s)"
  by pat_completeness auto
termination
  by (relation "measure (\<lambda>s. nat (total_frames (shared s) - next_seq_num (shared s)))")
     (auto simp: start_timer_def)

declare admit_loop.simps [simp del]

text \<open>One step of the main thread in \<open>run\<close>.\<close>

definition run_step :: "system \<Rightarrow> system option" where
  "run_step s =
     (case pc s of
        AtStart \<Rightarrow> Some (s\<lparr>printed := printed s @ [PrintStarting], pc := AtLoopTest\<rparr>)
      | AtLoopTest \<Rightarrow>
          if base (shared s) < total_frames (shared s) then Some (s\<lparr>pc := AtLock\<rparr>)
          else Some (s\<lparr>printed := printed s @ [PrintDone], pc := Finished\<rparr>)
      | AtLock \<Rightarrow> Some ((admit_loop s)\<lparr>pc := AtLoopTest\<rparr>)
      | Finished \<Rightarrow> None)"

text \<open>
  Timer threads are daemons: they run only while the main thread or a \<open>send_frame\<close>
  thread is still running.
\<close>

definition alive :: "system \<Rightarrow> bool" where
  "alive s = (pc s \<noteq> Finished \<or> senders s \<noteq> [])"

text \<open>
  The scheduler's choices. A \<open>send_frame\<close> thread makes its draws from the generator
  as that thread finds it, which the action carries.
\<close>

datatype action =
    MainStep
  | SenderDraws frame rng
  | SenderWakes real int
  | TimerExpires int

definition sender_draws :: "frame \<Rightarrow> rng \<Rightarrow> system \<Rightarrow> system option" where
  "sender_draws f g s =
     (if Started f \<in> set (senders s) then
        (case send_frame g f of
           (g', evs, Dropped) \<Rightarrow>
             Some (s\<lparr>senders := remove1 (Started f) (senders s), printed := printed s @ evs\<rparr>)
         | (g', evs, AckAfter d n) \<Rightarrow>
             Some (s\<lparr>senders := remove1 (Started f) (senders s) @ [Sleeping d n],
                      printed := printed s @ evs\<rparr>))
      else None)"

definition sender_wakes :: "real \<Rightarrow> int \<Rightarrow> system \<Rightarrow> system option" where
  "sender_wakes d n s =
     (if Sleeping d n \<in> set (senders s) then
        (case receive_ack (shared s) n of
           Inl (e, a', evs) \<Rightarrow>
             Some (s\<lparr>shared := a', senders := remove1 (Sleeping d n) (senders s),
                      printed := printed s @ evs, uncaught := uncaught s @ [e]\<rparr>)
         | Inr (a', evs) \<Rightarrow>
             Some (s\<lparr>shared := a', senders := remove1 (Sleeping d n) (senders s),
                      printed := printed s @ evs\<rparr>))
      else None)"

definition timer_expires :: "int \<Rightarrow> system \<Rightarrow> system option" where
  "timer_expires n s =
     (if n \<in> set (timers s) \<and> alive s then
        (case timer_thread (shared s) n of
           Inl e \<Rightarrow> Some (s\<lparr>timers := remove1 n (timers s), uncaught := uncaught s @ [e]\<rparr>)
         | Inr (evs, fs) \<Rightarrow>
             Some (s\<lparr>timers := remove1 n (timers s), printed := printed s @ evs,
                      senders := senders s @ map Started fs\<rparr>))
      else None)"

fun step :: "action \<Rightarrow> system \<Rightarrow> system option" where
  "step MainStep s = run_step s"
| "step (SenderDraws f g) s = sender_draws f g s"
| "step (SenderWakes d n) s = sender_wakes d n s"
| "step (TimerExpires n) s = timer_expires n s"

fun exec :: "action list \<Rightarrow> system \<Rightarrow> system option" where
  "exec [] s = Some s"
| "exec (x # xs) s = (case step x s of None \<Rightarrow> None | Some s' \<Rightarrow> exec xs s')"

text \<open>The program just after the constructor call, before \<open>run\<close> starts.\<close>

definition boot :: "int \<Rightarrow> int \<Rightarrow> system" where
  "boot tf ws =
     \<lparr>shared = SelectiveRepeatARQ tf ws, pc = AtStart, senders = [], timers = [],
      printed = [], uncaught = []\<rparr>"

definition main :: system where
  "main = boot TOTAL_FRAMES WINDOW_SIZE"

subsection \<open>Invariants\<close>

text \<open>
  The ack table has the length the constructor gave it, and \<open>base\<close> has not gone below
  its initial value.
\<close>

definition table_ok :: "arq \<Rightarrow> bool" where
  "table_ok a = (length (ack_received a) = nat (total_frames a) \<and> 0 \<le> base a)"

text \<open>
  The window invariant: the pointers are ordered, at most \<open>window_size\<close> frames are
  outstanding, every entry below \<open>base\<close> is set, the entry at \<open>base\<close> is not, and no
  entry at or above \<open>next_seq_num\<close> is set.
\<close>

definition window_inv :: "arq \<Rightarrow> bool" where
  "window_inv a =
     (table_ok a \<and> base a \<le> next_seq_num a \<and> next_seq_num a \<le> total_frames a \<and>
      next_seq_num a - base a \<le> window_size a \<and>
      (\<forall>i. i < nat (base a) \<longrightarrow> ack_received a ! i) \<and>
      (base a < total_frames a \<longrightarrow> \<not> ack_received a ! nat (base a)) \<and>
      (\<forall>i. nat (next_seq_num a) \<le> i \<and> i < length (ack_received a) \<longrightarrow> \<not> ack_received a ! i))"

text \<open>Every thread works on a sequence number that has been admitted.\<close>

fun sender_seq :: "sender \<Rightarrow> int" where
  "sender_seq (Started f) = seq_num f"
| "sender_seq (Sleeping d n) = n"

definition threads_inv :: "system \<Rightarrow> bool" where
  "threads_inv s =
     ((\<forall>t \<in> set (senders s). 0 \<le> sender_seq t \<and> sender_seq t < next_seq_num (shared s)) \<and>
      (\<forall>n \<in> set (timers s). 0 \<le> n \<and> n < next_seq_num (shared s)))"

subsection \<open>Monotone change of the shared object\<close>

text \<open>
  What may change between two states of the object: the configuration and the table's
  length stay, the pointers do not decrease, and a set entry stays set.
\<close>

definition grows :: "arq \<Rightarrow> arq \<Rightarrow> bool" where
  "grows a a' =
     (total_frames a' = total_frames a \<and> window_size a' = window_size a \<and>
      base a \<le> base a' \<and> next_seq_num a \<le> next_seq_num a' \<and>
      length (ack_received a') = length (ack_received a) \<and>
      (\<forall>i. i < length (ack_received a) \<and> ack_received a ! i \<longrightarrow> ack_received a' ! i))"

subsection \<open>Timers and timeouts per frame\<close>

text \<open>
  For a sequence number: the timer threads still running for it plus the timeout lines
  already printed for it. No admitted frame ever has more than one of the two, and a
  frame not yet admitted has none.
\<close>

definition timer_budget :: "system \<Rightarrow> int \<Rightarrow> nat" where
  "timer_budget s n = count_list (timers s) n + count_list (printed s) (PrintTimeout n)"

definition budget_inv :: "system \<Rightarrow> bool" where
  "budget_inv s =
     (\<forall>n. timer_budget s n \<le> 1 \<and> (next_seq_num (shared s) \<le> n \<longrightarrow> timer_budget s n = 0))"

subsection \<open>The flag of a timer\<close>

text \<open>
  The program keeps no timer object. What its timer callback tests before it
  retransmits is \<open>self.ack_received[seq_num]\<close>: the timer of a sequence number is
  inactive when that entry is set.
\<close>

definition timer_inactive :: "arq \<Rightarrow> int \<Rightarrow> bool" where
  "timer_inactive a n = (py_get (ack_received a) n = Inr True)"

subsection \<open>A frame nobody will send again\<close>

text \<open>
  An admitted frame that is not acknowledged, with no \<open>send_frame\<close> thread and no
  timer thread working on it, while \<open>run\<close> has not returned.
\<close>

definition abandoned :: "int \<Rightarrow> system \<Rightarrow> bool" where
  "abandoned n s =
     (0 \<le> n \<and> n < next_seq_num (shared s) \<and> \<not> ack_received (shared s) ! nat n \<and>
      (\<forall>t \<in> set (senders s). sender_seq t \<noteq> n) \<and> n \<notin> set (timers s) \<and> pc s \<noteq> Finished)"

subsection \<open>Example inputs and states\<close>

text \<open>
  Generators: every draw \<open>0\<close> (each attempt is lost), every draw \<open>1/2\<close> (delivered
  after one second, not reordered), a low reorder draw (delivered after two and a half
  seconds), and a low first draw followed by high ones. The draws are fractions with a
  power of two below, on which every float operation of \<open>send_frame\<close> is exact, so
  the rounding of these generators is the identity.
\<close>

definition g_zero :: rng where
  "g_zero = \<lparr>draws = (\<lambda>k. 0), pos = 0, rounding = (\<lambda>x. x)\<rparr>"

definition g_half :: rng where
  "g_half = \<lparr>draws = (\<lambda>k. 1 / 2), pos = 0, rounding = (\<lambda>x. x)\<rparr>"

definition g_reorder :: rng where
  "g_reorder =
     \<lparr>draws = (\<lambda>k. if k = 2 then 1 / 8 else 1 / 2), pos = 0, rounding = (\<lambda>x. x)\<rparr>"


text \<open>
  The program as shipped (ten frames, window of four), after its first admission pass;
  then with frame 1 acknowledged.
\<close>

definition s_main_full :: system where
  "s_main_full =
     \<lparr>shared = \<lparr>total_frames = 10, window_size = 4, base = 0, next_seq_num = 4,
                ack_received = replicate 10 False\<rparr>,
      pc = AtLoopTest,
      senders = [Started (Frame 0 ''Data0''), Started (Frame 1 ''Data1''),
                 Started (Frame 2 ''Data2''), Started (Frame 3 ''Data3'')],
      timers = [0, 1, 2, 3],
      printed = [PrintStarting, PrintSend 0, PrintSend 1, PrintSend 2, PrintSend 3],
      uncaught = []\<rparr>"

definition s_main_acked_1 :: system where
  "s_main_acked_1 =
     \<lparr>shared = \<lparr>total_frames = 10, window_size = 4, base = 0, next_seq_num = 4,
                ack_received = (replicate 10 False)[1 := True]\<rparr>,
      pc = AtLoopTest,
      senders = [Started (Frame 0 ''Data0''), Started (Frame 2 ''Data2''),
                 Started (Frame 3 ''Data3'')],
      timers = [0, 1, 2, 3],
      printed = [PrintStarting, PrintSend 0, PrintSend 1, PrintSend 2, PrintSend 3, PrintAck 1],
      uncaught = []\<rparr>"

text \<open>
  The program as shipped, after the first attempt of frame 0 and its retransmission
  were both lost.
\<close>

definition s_main_lost_0 :: system where
  "s_main_lost_0 =
     \<lparr>shared = \<lparr>total_frames = 10, window_size = 4, base = 0, next_seq_num = 4,
                ack_received = replicate 10 False\<rparr>,
      pc = AtLoopTest,
      senders = [Started (Frame 1 ''Data1''), Started (Frame 2 ''Data2''),
                 Started (Frame 3 ''Data3'')],
      timers = [1, 2, 3],
      printed = [PrintStarting, PrintSend 0, PrintSend 1, PrintSend 2, PrintSend 3,
                 PrintLoss 0, PrintTimeout 0, PrintLoss 0],
      uncaught = []\<rparr>"

text \<open>
  Three frames with a window of two, after the first admission pass; then with frame 1
  acknowledged.
\<close>

definition s_window_01 :: system where
  "s_window_01 =
     \<lparr>shared = \<lparr>total_frames = 3, window_size = 2, base = 0, next_seq_num = 2,
                ack_received = [False, False, False]\<rparr>,
      pc = AtLoopTest,
      senders = [Started (Frame 0 ''Data0''), Started (Frame 1 ''Data1'')],
      timers = [0, 1], printed = [PrintStarting, PrintSend 0, PrintSend 1], uncaught = []\<rparr>"

definition s_acked_1 :: system where
  "s_acked_1 =
     \<lparr>shared = \<lparr>total_frames = 3, window_size = 2, base = 0, next_seq_num = 2,
                ack_received = [False, True, False]\<rparr>,
      pc = AtLoopTest,
      senders = [Started (Frame 0 ''Data0'')],
      timers = [0, 1], printed = [PrintStarting, PrintSend 0, PrintSend 1, PrintAck 1], uncaught = []\<rparr>"

text \<open>
  Two frames with a window of two, both \<open>send_frame\<close> threads asleep (frame 0 for
  one second, frame 1 reordered, for two and a half); then with frame 0 acknowledged
  after its second, while frame 1 is still on its way and both timers still run.
\<close>

definition s_two_asleep :: system where
  "s_two_asleep =
     \<lparr>shared = \<lparr>total_frames = 2, window_size = 2, base = 0, next_seq_num = 2,
                ack_received = [False, False]\<rparr>,
      pc = AtLoopTest, senders = [Sleeping (5 / 2) 1, Sleeping 1 0], timers = [0, 1],
      printed = [PrintStarting, PrintSend 0, PrintSend 1, PrintReorder 1], uncaught = []\<rparr>"

definition s_two_acked_0 :: system where
  "s_two_acked_0 =
     \<lparr>shared = \<lparr>total_frames = 2, window_size = 2, base = 1, next_seq_num = 2,
                ack_received = [True, False]\<rparr>,
      pc = AtLoopTest, senders = [Sleeping (5 / 2) 1], timers = [0, 1],
      printed = [PrintStarting, PrintSend 0, PrintSend 1, PrintReorder 1, PrintAck 0],
      uncaught = []\<rparr>"

text \<open>
  One frame with a window of one: after its admission, and after its acknowledgment.
\<close>

definition s_sent_0 :: system where
  "s_sent_0 =
     \<lparr>shared = \<lparr>total_frames = 1, window_size = 1, base = 0, next_seq_num = 1,
                ack_received = [False]\<rparr>,
      pc = AtLoopTest, senders = [Started (Frame 0 ''Data0'')], timers = [0],
      printed = [PrintStarting, PrintSend 0], uncaught = []\<rparr>"

definition s_acked_0 :: system where
  "s_acked_0 =
     \<lparr>shared = \<lparr>total_frames = 1, window_size = 1, base = 1, next_seq_num = 1,
                ack_received = [True]\<rparr>,
      pc = AtLoopTest, senders = [], timers = [0],
      printed = [PrintStarting, PrintSend 0, PrintAck 0], uncaught = []\<rparr>"

text \<open>An object with frame 0 acknowledged and frame 1 outstanding.\<close>

definition a_mid :: arq where
  "a_mid = \<lparr>total_frames = 3, window_size = 2, base = 1, next_seq_num = 2,
            ack_received = [True, False, False]\<rparr>"

section \<open>Properties\<close>

subsection \<open>List subscripts and the slide loop\<close>

lemma py_get_in_range:
  "0 \<le> i \<Longrightarrow> i < int (length xs) \<Longrightarrow> py_get xs i = Inr (xs ! nat i)"
  by (simp add: py_get_def py_index_def)

lemma slide_keeps:
  "slide a = Inr a' \<Longrightarrow>
     ack_received a' = ack_received a \<and> total_frames a' = total_frames a \<and>
     window_size a' = window_size a \<and> next_seq_num a' = next_seq_num a \<and> base a \<le> base a'"
proof (induction a rule: slide.induct)
  case (1 a)
  show ?case
  proof (cases "base a < total_frames a")
    case False
    with "1.prems" show ?thesis by (simp add: slide.simps [of a])
  next
    case True
    note lt = this
    show ?thesis
    proof (cases "py_get (ack_received a) (base a)")
      case (Inl e)
      with lt "1.prems" show ?thesis by (simp add: slide.simps [of a])
    next
      case (Inr acked)
      show ?thesis
      proof (cases acked)
        case False
        with lt Inr "1.prems" show ?thesis by (simp add: slide.simps [of a])
      next
        case True
        with lt Inr "1.prems" have "slide (a\<lparr>base := base a + 1\<rparr>) = Inr a'"
          by (simp add: slide.simps [of a])
        from "1.IH" [OF lt Inr True this] show ?thesis by simp
      qed
    qed
  qed
qed

lemma slide_keeps_err:
  "slide a = Inl (e, a') \<Longrightarrow>
     ack_received a' = ack_received a \<and> total_frames a' = total_frames a \<and>
     window_size a' = window_size a \<and> next_seq_num a' = next_seq_num a \<and> base a \<le> base a'"
proof (induction a rule: slide.induct)
  case (1 a)
  show ?case
  proof (cases "base a < total_frames a")
    case False
    with "1.prems" show ?thesis by (simp add: slide.simps [of a])
  next
    case True
    note lt = this
    show ?thesis
    proof (cases "py_get (ack_received a) (base a)")
      case (Inl e)
      with lt "1.prems" show ?thesis by (simp add: slide.simps [of a])
    next
      case (Inr acked)
      show ?thesis
      proof (cases acked)
        case False
        with lt Inr "1.prems" show ?thesis by (simp add: slide.simps [of a])
      next
        case True
        with lt Inr "1.prems" have "slide (a\<lparr>base := base a + 1\<rparr>) = Inl (e, a')"
          by (simp add: slide.simps [of a])
        from "1.IH" [OF lt Inr True this] show ?thesis by simp
      qed
    qed
  qed
qed

lemma slide_total:
  "table_ok a \<Longrightarrow>
   \<exists>b. slide a = Inr (a\<lparr>base := b\<rparr>) \<and> base a \<le> b \<and>
       (\<forall>i. base a \<le> i \<and> i < b \<longrightarrow> ack_received a ! nat i) \<and>
       (b < total_frames a \<longrightarrow> \<not> ack_received a ! nat b) \<and>
       (base a \<le> total_frames a \<longrightarrow> b \<le> total_frames a)"
proof (induction a rule: slide.induct)
  case (1 a)
  from "1.prems" have len: "length (ack_received a) = nat (total_frames a)" and b0: "0 \<le> base a"
    by (simp_all add: table_ok_def)
  show ?case
  proof (cases "base a < total_frames a")
    case False
    then have "slide a = Inr (a\<lparr>base := base a\<rparr>)" by (simp add: slide.simps [of a])
    with False show ?thesis by (intro exI [of _ "base a"]) auto
  next
    case True
    note lt = this
    with len b0 have get: "py_get (ack_received a) (base a) = Inr (ack_received a ! nat (base a))"
      by (simp add: py_get_in_range)
    show ?thesis
    proof (cases "ack_received a ! nat (base a)")
      case False
      with lt get have "slide a = Inr (a\<lparr>base := base a\<rparr>)" by (simp add: slide.simps [of a])
      with False lt show ?thesis by (intro exI [of _ "base a"]) auto
    next
      case True
      let ?a1 = "a\<lparr>base := base a + 1\<rparr>"
      from "1.prems" have "table_ok ?a1" by (simp add: table_ok_def)
      from "1.IH" [OF lt get True this]
      obtain b where b: "slide ?a1 = Inr (?a1\<lparr>base := b\<rparr>)" "base a + 1 \<le> b"
        "\<forall>i. base a + 1 \<le> i \<and> i < b \<longrightarrow> ack_received a ! nat i"
        "b < total_frames a \<longrightarrow> \<not> ack_received a ! nat b"
        "base a + 1 \<le> total_frames a \<longrightarrow> b \<le> total_frames a"
        by auto
      from lt get True b(1) have "slide a = Inr (a\<lparr>base := b\<rparr>)"
        by (simp add: slide.simps [of a])
      moreover have "\<forall>i. base a \<le> i \<and> i < b \<longrightarrow> ack_received a ! nat i"
      proof (intro allI impI)
        fix i assume "base a \<le> i \<and> i < b"
        then show "ack_received a ! nat i"
          using b(3) True by (cases "i = base a") auto
      qed
      ultimately show ?thesis using b(2,4,5) lt by (intro exI [of _ b]) auto
    qed
  qed
qed

subsection \<open>Acknowledgment delivery\<close>

lemma receive_ack_acked:
  "py_get (ack_received a) n = Inr True \<Longrightarrow> receive_ack a n = Inr (a, [])"
  by (simp add: receive_ack_def)

lemma receive_ack_fresh:
  assumes ok: "table_ok a" and lo: "- total_frames a \<le> n" and hi: "n < total_frames a"
    and j: "j = nat (if n < 0 then n + total_frames a else n)"
    and fresh: "\<not> ack_received a ! j"
  shows "\<exists>b. receive_ack a n =
            Inr (a\<lparr>ack_received := (ack_received a)[j := True], base := b\<rparr>, [PrintAck n]) \<and>
          base a \<le> b \<and>
          (\<forall>i. base a \<le> i \<and> i < b \<longrightarrow> (ack_received a)[j := True] ! nat i) \<and>
          (b < total_frames a \<longrightarrow> \<not> (ack_received a)[j := True] ! nat b) \<and>
          (base a \<le> total_frames a \<longrightarrow> b \<le> total_frames a)"
proof -
  let ?xs = "(ack_received a)[j := True]"
  let ?a1 = "a\<lparr>ack_received := ?xs\<rparr>"
  from ok have len: "length (ack_received a) = nat (total_frames a)"
    by (simp add: table_ok_def)
  from len lo hi j have get: "py_get (ack_received a) n = Inr (ack_received a ! j)"
    by (auto simp: py_get_def py_index_def)
  from len lo hi j have set: "py_set (ack_received a) n True = Inr ?xs"
    by (auto simp: py_set_def py_index_def)
  from ok have "table_ok ?a1" by (simp add: table_ok_def)
  from slide_total [OF this]
  obtain b where b: "slide ?a1 = Inr (?a1\<lparr>base := b\<rparr>)" "base a \<le> b"
    "\<forall>i. base a \<le> i \<and> i < b \<longrightarrow> ?xs ! nat i"
    "b < total_frames a \<longrightarrow> \<not> ?xs ! nat b"
    "base a \<le> total_frames a \<longrightarrow> b \<le> total_frames a"
    by auto
  from get set fresh b(1)
  have "receive_ack a n = Inr (?a1\<lparr>base := b\<rparr>, [PrintAck n])"
    by (simp add: receive_ack_def)
  with b(2-5) show ?thesis by (intro exI [of _ b]) simp
qed

lemma receive_ack_result:
  "receive_ack a n = Inr (a', evs) \<Longrightarrow>
     total_frames a' = total_frames a \<and> window_size a' = window_size a \<and>
     next_seq_num a' = next_seq_num a \<and> base a \<le> base a' \<and>
     length (ack_received a') = length (ack_received a) \<and>
     (\<forall>i. i < length (ack_received a) \<and> ack_received a ! i \<longrightarrow> ack_received a' ! i)"
  by (auto simp: receive_ack_def py_set_def py_index_def nth_list_update
      split: sum.splits if_splits prod.splits dest!: slide_keeps)

lemma receive_ack_error:
  "receive_ack a n = Inl (e, a', evs) \<Longrightarrow>
     total_frames a' = total_frames a \<and> window_size a' = window_size a \<and>
     next_seq_num a' = next_seq_num a \<and> base a \<le> base a' \<and>
     length (ack_received a') = length (ack_received a) \<and>
     (\<forall>i. i < length (ack_received a) \<and> ack_received a ! i \<longrightarrow> ack_received a' ! i)"
  by (auto simp: receive_ack_def py_set_def py_index_def nth_list_update
      split: sum.splits if_splits prod.splits dest!: slide_keeps_err)

lemma receive_ack_then_acked:
  "receive_ack a n = Inr (a', evs) \<Longrightarrow> py_get (ack_received a') n = Inr True"
  by (auto simp: receive_ack_def py_set_def py_get_def py_index_def
      split: sum.splits if_splits prod.splits dest!: slide_keeps)

lemma receive_ack_returns:
  assumes "table_ok a" and "0 \<le> n" and "n < total_frames a"
  shows "\<exists>a1 evs. receive_ack a n = Inr (a1, evs)"
proof (cases "ack_received a ! nat n")
  case True
  from assms have "length (ack_received a) = nat (total_frames a)"
    by (simp add: table_ok_def)
  with True assms have "py_get (ack_received a) n = Inr True" by (simp add: py_get_in_range)
  then show ?thesis by (simp add: receive_ack_acked)
next
  case False
  from assms(2,3) have "- total_frames a \<le> n" "n < total_frames a"
    "nat n = nat (if n < 0 then n + total_frames a else n)" by auto
  from receive_ack_fresh [OF assms(1) this False] show ?thesis by blast
qed

lemma receive_ack_inv:
  assumes inv: "window_inv a" and lo: "0 \<le> n" and hi: "n < next_seq_num a"
  shows "\<exists>a' evs. receive_ack a n = Inr (a', evs) \<and> window_inv a'"
proof (cases "ack_received a ! nat n")
  case True
  from inv lo hi have "py_get (ack_received a) n = Inr (ack_received a ! nat n)"
    by (simp add: window_inv_def table_ok_def py_get_in_range)
  with True have "receive_ack a n = Inr (a, [])" by (simp add: receive_ack_acked)
  with inv show ?thesis by simp
next
  case False
  let ?xs = "(ack_received a)[nat n := True]"
  from inv have ok: "table_ok a" and len: "length (ack_received a) = nat (total_frames a)"
    and b0: "0 \<le> base a" and bn: "base a \<le> next_seq_num a"
    and nt: "next_seq_num a \<le> total_frames a"
    and win: "next_seq_num a - base a \<le> window_size a"
    and below: "\<forall>i. i < nat (base a) \<longrightarrow> ack_received a ! i"
    and beyond: "\<forall>i. nat (next_seq_num a) \<le> i \<and> i < length (ack_received a) \<longrightarrow> \<not> ack_received a ! i"
    by (simp_all add: window_inv_def table_ok_def)
  from lo hi nt have "- total_frames a \<le> n" "n < total_frames a"
    "nat n = nat (if n < 0 then n + total_frames a else n)" by auto
  from receive_ack_fresh [OF ok this False]
  obtain b where b: "receive_ack a n = Inr (a\<lparr>ack_received := ?xs, base := b\<rparr>, [PrintAck n])"
    "base a \<le> b" "\<forall>i. base a \<le> i \<and> i < b \<longrightarrow> ?xs ! nat i"
    "b < total_frames a \<longrightarrow> \<not> ?xs ! nat b" "base a \<le> total_frames a \<longrightarrow> b \<le> total_frames a"
    by auto
  from bn nt b(5) have bt: "b \<le> total_frames a" by simp
  have bnext: "b \<le> next_seq_num a"
  proof (rule ccontr)
    assume "\<not> b \<le> next_seq_num a"
    then have lt: "next_seq_num a < b" by simp
    with bn b(3) have "?xs ! nat (next_seq_num a)" by simp
    moreover from lt bt len b0 bn have "nat (next_seq_num a) < length (ack_received a)" by simp
    moreover from lo hi have "nat n \<noteq> nat (next_seq_num a)" by simp
    ultimately have "ack_received a ! nat (next_seq_num a)" by simp
    with beyond \<open>nat (next_seq_num a) < length (ack_received a)\<close> show False by simp
  qed
  have below': "\<forall>i. i < nat b \<longrightarrow> ?xs ! i"
  proof (intro allI impI)
    fix i assume i: "i < nat b"
    show "?xs ! i"
    proof (cases "i < nat (base a)")
      case True
      with below have "ack_received a ! i" by simp
      moreover from lo hi nt len have "nat n < length (ack_received a)" by simp
      ultimately show ?thesis by (simp add: nth_list_update)
    next
      case False
      with i have "base a \<le> int i \<and> int i < b" by auto
      with b(3) have "?xs ! nat (int i)" by blast
      then show ?thesis by simp
    qed
  qed
  have beyond': "\<forall>i. nat (next_seq_num a) \<le> i \<and> i < length ?xs \<longrightarrow> \<not> ?xs ! i"
  proof (intro allI impI)
    fix i assume i: "nat (next_seq_num a) \<le> i \<and> i < length ?xs"
    with lo hi have "i \<noteq> nat n" by auto
    with i beyond show "\<not> ?xs ! i" by simp
  qed
  from len b0 b(2) bnext nt win below' b(4) beyond' bt
  have "window_inv (a\<lparr>ack_received := ?xs, base := b\<rparr>)"
    by (simp add: window_inv_def table_ok_def)
  with b(1) show ?thesis by simp
qed

subsection \<open>The admission loop\<close>

lemma boot_inv:
  assumes "0 \<le> tf" "0 \<le> ws"
  shows "window_inv (SelectiveRepeatARQ tf ws)"
  using assms by (simp add: window_inv_def table_ok_def SelectiveRepeatARQ_def)

lemma admit_loop_keeps:
  "shared (admit_loop s) = (shared s)\<lparr>next_seq_num := next_seq_num (shared (admit_loop s))\<rparr> \<and>
   next_seq_num (shared s) \<le> next_seq_num (shared (admit_loop s)) \<and>
   pc (admit_loop s) = pc s \<and> uncaught (admit_loop s) = uncaught s"
proof (induction s rule: admit_loop.induct)
  case (1 s)
  show ?case
  proof (cases "next_seq_num (shared s) < base (shared s) + window_size (shared s) \<and>
                next_seq_num (shared s) < total_frames (shared s)")
    case False
    then show ?thesis by (auto simp: admit_loop.simps [of s] Let_def)
  next
    case True
    let ?f = "Frame (next_seq_num (shared s)) (''Data'' @ str_int (next_seq_num (shared s)))"
    let ?s1 = "s\<lparr>printed := printed s @ [PrintSend (seq_num ?f)]\<rparr>"
    let ?s2 = "?s1\<lparr>senders := senders ?s1 @ [Started ?f]\<rparr>"
    let ?s3 = "start_timer ?s2 (seq_num ?f)"
    let ?s4 = "?s3\<lparr>shared := (shared s)\<lparr>next_seq_num := next_seq_num (shared s) + 1\<rparr>\<rparr>"
    from True have eq: "admit_loop s = admit_loop ?s4"
      by (subst admit_loop.simps) (simp add: Let_def)
    from "1.IH" [OF refl True refl refl refl refl]
    have IH: "shared (admit_loop ?s4) = (shared ?s4)\<lparr>next_seq_num := next_seq_num (shared (admit_loop ?s4))\<rparr> \<and>
       next_seq_num (shared ?s4) \<le> next_seq_num (shared (admit_loop ?s4)) \<and>
       pc (admit_loop ?s4) = pc ?s4 \<and> uncaught (admit_loop ?s4) = uncaught ?s4" .
    then show ?thesis unfolding eq by (simp add: start_timer_def)
  qed
qed

lemma admit_loop_inv:
  "window_inv (shared s) \<Longrightarrow> threads_inv s \<Longrightarrow>
   window_inv (shared (admit_loop s)) \<and> threads_inv (admit_loop s)"
proof (induction s rule: admit_loop.induct)
  case (1 s)
  show ?case
  proof (cases "next_seq_num (shared s) < base (shared s) + window_size (shared s) \<and>
                next_seq_num (shared s) < total_frames (shared s)")
    case False
    with "1.prems" show ?thesis by (auto simp: admit_loop.simps [of s] Let_def)
  next
    case True
    let ?f = "Frame (next_seq_num (shared s)) (''Data'' @ str_int (next_seq_num (shared s)))"
    let ?s1 = "s\<lparr>printed := printed s @ [PrintSend (seq_num ?f)]\<rparr>"
    let ?s2 = "?s1\<lparr>senders := senders ?s1 @ [Started ?f]\<rparr>"
    let ?s3 = "start_timer ?s2 (seq_num ?f)"
    let ?s4 = "?s3\<lparr>shared := (shared s)\<lparr>next_seq_num := next_seq_num (shared s) + 1\<rparr>\<rparr>"
    from True have eq: "admit_loop s = admit_loop ?s4"
      by (subst admit_loop.simps) (simp add: Let_def)
    from "1.prems"(1) True have w: "window_inv (shared ?s4)"
      by (auto simp: window_inv_def table_ok_def start_timer_def)
    from "1.prems" True have t: "threads_inv ?s4"
      by (auto simp: threads_inv_def window_inv_def table_ok_def start_timer_def Frame_def)
    from "1.IH" [OF refl True refl refl refl refl w t] show ?thesis unfolding eq .
  qed
qed

lemma admit_loop_full:
  "next_seq_num (shared s) - base (shared s) = window_size (shared s) \<Longrightarrow> admit_loop s = s"
  by (auto simp: admit_loop.simps [of s] Let_def)

lemma admit_loop_next:
  "next_seq_num (shared (admit_loop s)) =
     max (next_seq_num (shared s))
         (min (base (shared s) + window_size (shared s)) (total_frames (shared s)))"
proof (induction s rule: admit_loop.induct)
  case (1 s)
  show ?case
  proof (cases "next_seq_num (shared s) < base (shared s) + window_size (shared s) \<and>
                next_seq_num (shared s) < total_frames (shared s)")
    case False
    then show ?thesis by (auto simp: admit_loop.simps [of s] Let_def)
  next
    case True
    let ?f = "Frame (next_seq_num (shared s)) (''Data'' @ str_int (next_seq_num (shared s)))"
    let ?s1 = "s\<lparr>printed := printed s @ [PrintSend (seq_num ?f)]\<rparr>"
    let ?s2 = "?s1\<lparr>senders := senders ?s1 @ [Started ?f]\<rparr>"
    let ?s3 = "start_timer ?s2 (seq_num ?f)"
    let ?s4 = "?s3\<lparr>shared := (shared s)\<lparr>next_seq_num := next_seq_num (shared s) + 1\<rparr>\<rparr>"
    from True have eq: "admit_loop s = admit_loop ?s4"
      by (subst admit_loop.simps) (simp add: Let_def)
    from "1.IH" [OF refl True refl refl refl refl] True show ?thesis
      unfolding eq by (auto simp: start_timer_def)
  qed
qed

subsection \<open>Steps and runs\<close>

lemma send_frame_seq:
  "send_frame g f = (g', evs, AckAfter d n) \<Longrightarrow> n = seq_num f"
  by (auto simp: send_frame_def split: prod.splits if_splits)

lemma timer_thread_frames:
  "timer_thread a n = Inr (evs, fs) \<Longrightarrow> \<forall>f \<in> set fs. seq_num f = n"
  by (auto simp: timer_thread_def Frame_def split: sum.splits if_splits)

lemma step_inv:
  assumes w: "window_inv (shared s)" and t: "threads_inv s" and st: "step act s = Some s'"
  shows "window_inv (shared s') \<and> threads_inv s'"
proof (cases act)
  case MainStep
  show ?thesis
  proof (cases "pc s")
    case AtLock
    with MainStep st have s': "s' = (admit_loop s)\<lparr>pc := AtLoopTest\<rparr>"
      by (simp add: run_step_def)
    from admit_loop_inv [OF w t] show ?thesis
      unfolding s' by (simp add: threads_inv_def)
  next
    case AtStart
    with MainStep st w t show ?thesis
      by (auto simp: run_step_def threads_inv_def)
  next
    case AtLoopTest
    with MainStep st w t show ?thesis
      by (auto simp: run_step_def threads_inv_def split: if_splits)
  next
    case Finished
    with MainStep st show ?thesis by (simp add: run_step_def)
  qed
next
  case (SenderDraws f g)
  with st have mem: "Started f \<in> set (senders s)"
    by (simp add: sender_draws_def split: if_splits)
  with t have rng: "0 \<le> seq_num f \<and> seq_num f < next_seq_num (shared s)"
    by (force simp: threads_inv_def)
  obtain g' evs oc where sf: "send_frame g f = (g', evs, oc)" by (cases "send_frame g f") auto
  show ?thesis
  proof (cases oc)
    case Dropped
    with SenderDraws st mem sf
    have "s' = s\<lparr>senders := remove1 (Started f) (senders s), printed := printed s @ evs\<rparr>"
      by (simp add: sender_draws_def)
    with w t show ?thesis by (auto simp: threads_inv_def dest: notin_set_remove1)
  next
    case (AckAfter d n)
    with sf have "n = seq_num f" by (simp add: send_frame_seq)
    moreover from AckAfter SenderDraws st mem sf
    have "s' = s\<lparr>senders := remove1 (Started f) (senders s) @ [Sleeping d n],
                   printed := printed s @ evs\<rparr>"
      by (simp add: sender_draws_def)
    ultimately show ?thesis using w t rng
      by (auto simp: threads_inv_def dest: notin_set_remove1)
  qed
next
  case (SenderWakes d n)
  with st have mem: "Sleeping d n \<in> set (senders s)"
    by (simp add: sender_wakes_def split: if_splits)
  with t have rng: "0 \<le> n" "n < next_seq_num (shared s)"
    by (force simp: threads_inv_def)+
  from receive_ack_inv [OF w rng]
  obtain a' evs where ra: "receive_ack (shared s) n = Inr (a', evs)" and w': "window_inv a'"
    by auto
  from receive_ack_result [OF ra] have nx: "next_seq_num a' = next_seq_num (shared s)" by simp
  from SenderWakes st mem ra
  have "s' = s\<lparr>shared := a', senders := remove1 (Sleeping d n) (senders s),
                 printed := printed s @ evs\<rparr>"
    by (simp add: sender_wakes_def)
  with w' t nx show ?thesis by (auto simp: threads_inv_def dest: notin_set_remove1)
next
  case (TimerExpires n)
  with st have mem: "n \<in> set (timers s)"
    by (simp add: timer_expires_def split: if_splits)
  with t have rng: "0 \<le> n \<and> n < next_seq_num (shared s)"
    by (simp add: threads_inv_def)
  show ?thesis
  proof (cases "timer_thread (shared s) n")
    case (Inl e)
    with TimerExpires st mem
    have "s' = s\<lparr>timers := remove1 n (timers s), uncaught := uncaught s @ [e]\<rparr>"
      by (simp add: timer_expires_def split: if_splits)
    with w t show ?thesis by (auto simp: threads_inv_def dest: notin_set_remove1)
  next
    case (Inr r)
    obtain evs fs where r: "r = (evs, fs)" by (cases r) auto
    with Inr have "\<forall>f \<in> set fs. seq_num f = n" by (simp add: timer_thread_frames)
    moreover from r Inr TimerExpires st mem
    have "s' = s\<lparr>timers := remove1 n (timers s), printed := printed s @ evs,
                   senders := senders s @ map Started fs\<rparr>"
      by (simp add: timer_expires_def split: if_splits)
    ultimately show ?thesis using w t rng
      by (auto simp: threads_inv_def dest: notin_set_remove1)
  qed
qed

lemma exec_inv:
  "window_inv (shared s) \<Longrightarrow> threads_inv s \<Longrightarrow> exec acts s = Some s' \<Longrightarrow>
   window_inv (shared s') \<and> threads_inv s'"
proof (induction acts arbitrary: s)
  case Nil
  then show ?case by simp
next
  case (Cons x xs)
  from Cons.prems(3) obtain s1 where s1: "step x s = Some s1" "exec xs s1 = Some s'"
    by (auto split: option.splits)
  from step_inv [OF Cons.prems(1,2) s1(1)] Cons.IH [OF _ _ s1(2)] show ?case by blast
qed

lemma reachable_inv:
  assumes "0 \<le> tf" "0 \<le> ws" "exec acts (boot tf ws) = Some s"
  shows "window_inv (shared s) \<and> threads_inv s"
proof -
  from assms(1,2) have "window_inv (shared (boot tf ws))" by (simp add: boot_def boot_inv)
  moreover have "threads_inv (boot tf ws)" by (simp add: boot_def threads_inv_def)
  ultimately show ?thesis using assms(3) by (rule exec_inv)
qed

lemma step_grows:
  assumes st: "step act s = Some s'"
  shows "grows (shared s) (shared s')"
proof (cases act)
  case MainStep
  show ?thesis
  proof (cases "pc s")
    case AtLock
    with MainStep st have s': "s' = (admit_loop s)\<lparr>pc := AtLoopTest\<rparr>"
      by (simp add: run_step_def)
    define N where "N = next_seq_num (shared (admit_loop s))"
    from admit_loop_keeps [of s]
    have a: "shared (admit_loop s) = (shared s)\<lparr>next_seq_num := N\<rparr>"
      "next_seq_num (shared s) \<le> N" by (simp_all add: N_def)
    from a(1) have "shared s' = (shared s)\<lparr>next_seq_num := N\<rparr>" unfolding s' by simp
    with a(2) show ?thesis by (simp add: grows_def)
  next
    case AtStart
    with MainStep st show ?thesis by (auto simp: run_step_def grows_def)
  next
    case AtLoopTest
    with MainStep st show ?thesis by (auto simp: run_step_def grows_def split: if_splits)
  next
    case Finished
    with MainStep st show ?thesis by (simp add: run_step_def)
  qed
next
  case (SenderDraws f g)
  with st show ?thesis
    by (auto simp: sender_draws_def grows_def split: if_splits prod.splits send_outcome.splits)
next
  case (SenderWakes d n)
  show ?thesis
  proof (cases "receive_ack (shared s) n")
    case (Inl r)
    obtain e a' evs where r: "r = (e, a', evs)" by (cases r) auto
    with Inl SenderWakes st have "shared s' = a'"
      by (auto simp: sender_wakes_def split: if_splits)
    with receive_ack_error [of "shared s" n e a' evs] Inl r show ?thesis
      by (simp add: grows_def)
  next
    case (Inr r)
    obtain a' evs where r: "r = (a', evs)" by (cases r) auto
    with Inr SenderWakes st have "shared s' = a'"
      by (auto simp: sender_wakes_def split: if_splits)
    with receive_ack_result [of "shared s" n a' evs] Inr r show ?thesis
      by (simp add: grows_def)
  qed
next
  case (TimerExpires n)
  with st show ?thesis
    by (auto simp: timer_expires_def grows_def split: if_splits sum.splits prod.splits)
qed

lemma grows_refl: "grows a a"
  by (simp add: grows_def)

lemma grows_trans: "grows a b \<Longrightarrow> grows b c \<Longrightarrow> grows a c"
  by (auto simp: grows_def)

lemma exec_grows:
  "exec acts s = Some s' \<Longrightarrow> grows (shared s) (shared s')"
proof (induction acts arbitrary: s)
  case Nil
  then show ?case by (simp add: grows_refl)
next
  case (Cons x xs)
  from Cons.prems obtain s1 where s1: "step x s = Some s1" "exec xs s1 = Some s'"
    by (auto split: option.splits)
  from step_grows [OF s1(1)] Cons.IH [OF s1(2)] show ?case by (rule grows_trans)
qed

lemma grows_acked:
  assumes "grows a a'" and "py_get (ack_received a) n = Inr True"
  shows "py_get (ack_received a') n = Inr True"
  using assms by (auto simp: grows_def py_get_def py_index_def split: if_splits)

lemma timer_thread_acked:
  "py_get (ack_received a) n = Inr True \<Longrightarrow> timer_thread a n = Inr ([], [])"
  by (simp add: timer_thread_def)

lemma timer_expires_acked:
  assumes "py_get (ack_received (shared s)) n = Inr True" and "step (TimerExpires n) s = Some s'"
  shows "s' = s\<lparr>timers := remove1 n (timers s)\<rparr>"
  using assms by (auto simp: timer_expires_def timer_thread_acked split: if_splits)

subsection \<open>At most one timeout per frame\<close>

lemma count_list_remove1:
  "x \<in> set xs \<Longrightarrow>
   count_list (remove1 x xs) y = (if x = y then count_list xs y - 1 else count_list xs y)"
  by (induction xs) auto

lemma count_list_member: "x \<in> set xs \<Longrightarrow> 1 \<le> count_list xs x"
  by (induction xs) auto

lemma budget_invI:
  assumes "\<And>n. timer_budget s' n \<le> timer_budget s n"
    and "next_seq_num (shared s) \<le> next_seq_num (shared s')" and "budget_inv s"
  shows "budget_inv s'"
  unfolding budget_inv_def
proof (intro allI conjI impI)
  fix n
  from assms(3) have "timer_budget s n \<le> 1" by (simp add: budget_inv_def)
  with assms(1) [of n] show "timer_budget s' n \<le> 1" by simp
next
  fix n assume "next_seq_num (shared s') \<le> n"
  with assms(2) have "next_seq_num (shared s) \<le> n" by simp
  with assms(3) have "timer_budget s n = 0" by (simp add: budget_inv_def)
  with assms(1) [of n] show "timer_budget s' n = 0" by simp
qed

lemma admit_loop_budget:
  "budget_inv s \<Longrightarrow> budget_inv (admit_loop s)"
proof (induction s rule: admit_loop.induct)
  case (1 s)
  show ?case
  proof (cases "next_seq_num (shared s) < base (shared s) + window_size (shared s) \<and>
                next_seq_num (shared s) < total_frames (shared s)")
    case False
    with "1.prems" show ?thesis by (auto simp: admit_loop.simps [of s] Let_def)
  next
    case True
    let ?f = "Frame (next_seq_num (shared s)) (''Data'' @ str_int (next_seq_num (shared s)))"
    let ?s1 = "s\<lparr>printed := printed s @ [PrintSend (seq_num ?f)]\<rparr>"
    let ?s2 = "?s1\<lparr>senders := senders ?s1 @ [Started ?f]\<rparr>"
    let ?s3 = "start_timer ?s2 (seq_num ?f)"
    let ?s4 = "?s3\<lparr>shared := (shared s)\<lparr>next_seq_num := next_seq_num (shared s) + 1\<rparr>\<rparr>"
    from True have eq: "admit_loop s = admit_loop ?s4"
      by (subst admit_loop.simps) (simp add: Let_def)
    have b4: "timer_budget ?s4 n =
                timer_budget s n + (if n = next_seq_num (shared s) then 1 else 0)" for n
      by (simp add: timer_budget_def start_timer_def Frame_def)
    have "budget_inv ?s4"
      unfolding budget_inv_def
    proof (intro allI conjI impI)
      fix n
      from "1.prems" have "timer_budget s n \<le> 1"
        "next_seq_num (shared s) \<le> n \<longrightarrow> timer_budget s n = 0"
        by (simp_all add: budget_inv_def)
      then show "timer_budget ?s4 n \<le> 1" unfolding b4 by auto
    next
      fix n assume "next_seq_num (shared ?s4) \<le> n"
      then have n: "next_seq_num (shared s) + 1 \<le> n" by (simp add: start_timer_def)
      with "1.prems" have "timer_budget s n = 0" by (simp add: budget_inv_def)
      with n show "timer_budget ?s4 n = 0" unfolding b4 by simp
    qed
    from "1.IH" [OF refl True refl refl refl refl this] show ?thesis unfolding eq .
  qed
qed

lemma step_budget:
  assumes b: "budget_inv s" and st: "step act s = Some s'"
  shows "budget_inv s'"
proof (cases act)
  case MainStep
  show ?thesis
  proof (cases "pc s")
    case AtLock
    with MainStep st have s': "s' = (admit_loop s)\<lparr>pc := AtLoopTest\<rparr>"
      by (simp add: run_step_def)
    from admit_loop_budget [OF b] show ?thesis
      unfolding s' by (simp add: budget_inv_def timer_budget_def)
  next
    case AtStart
    with MainStep st have "s' = s\<lparr>printed := printed s @ [PrintStarting], pc := AtLoopTest\<rparr>"
      by (simp add: run_step_def)
    then have "timer_budget s' n \<le> timer_budget s n"
      and "next_seq_num (shared s) \<le> next_seq_num (shared s')" for n
      by (simp_all add: timer_budget_def)
    then show ?thesis using b by (rule budget_invI)
  next
    case AtLoopTest
    with MainStep st
    have "s' = s\<lparr>pc := AtLock\<rparr> \<or> s' = s\<lparr>printed := printed s @ [PrintDone], pc := Finished\<rparr>"
      by (auto simp: run_step_def split: if_splits)
    then have "timer_budget s' n \<le> timer_budget s n"
      and "next_seq_num (shared s) \<le> next_seq_num (shared s')" for n
      by (auto simp: timer_budget_def)
    then show ?thesis using b by (rule budget_invI)
  next
    case Finished
    with MainStep st show ?thesis by (simp add: run_step_def)
  qed
next
  case (SenderDraws f g)
  with st have "shared s' = shared s" and "timers s' = timers s"
    and "printed s' = printed s \<or> printed s' = printed s @ [PrintLoss (seq_num f)] \<or>
         printed s' = printed s @ [PrintReorder (seq_num f)]"
    by (auto simp: sender_draws_def send_frame_def
        split: if_splits prod.splits send_outcome.splits)
  then have "timer_budget s' n \<le> timer_budget s n"
    and "next_seq_num (shared s) \<le> next_seq_num (shared s')" for n
    by (auto simp: timer_budget_def)
  then show ?thesis using b by (rule budget_invI)
next
  case (SenderWakes d n)
  from step_grows [OF st] have nx: "next_seq_num (shared s) \<le> next_seq_num (shared s')"
    by (simp add: grows_def)
  from SenderWakes st have tm: "timers s' = timers s"
    by (auto simp: sender_wakes_def split: if_splits sum.splits prod.splits)
  from SenderWakes st
  have pr: "printed s' = printed s \<or> printed s' = printed s @ [PrintAck n]"
    by (auto simp: sender_wakes_def receive_ack_def split: if_splits sum.splits prod.splits)
  with tm have "timer_budget s' m \<le> timer_budget s m" for m
    by (auto simp: timer_budget_def)
  then show ?thesis using nx b by (rule budget_invI)
next
  case (TimerExpires n)
  with st have mem: "n \<in> set (timers s)"
    by (simp add: timer_expires_def split: if_splits)
  from TimerExpires st have sh: "shared s' = shared s" and tm: "timers s' = remove1 n (timers s)"
    by (auto simp: timer_expires_def split: if_splits sum.splits prod.splits)
  from TimerExpires st
  have pr: "printed s' = printed s \<or> printed s' = printed s @ [PrintTimeout n]"
    by (auto simp: timer_expires_def timer_thread_def split: if_splits sum.splits prod.splits)
  from count_list_member [OF mem] have "1 \<le> count_list (timers s) n" .
  with pr tm have "timer_budget s' m \<le> timer_budget s m" for m
    by (auto simp: timer_budget_def count_list_remove1 [OF mem])
  moreover from sh have "next_seq_num (shared s) \<le> next_seq_num (shared s')" by simp
  ultimately show ?thesis using b by (rule budget_invI)
qed

lemma exec_budget:
  "budget_inv s \<Longrightarrow> exec acts s = Some s' \<Longrightarrow> budget_inv s'"
proof (induction acts arbitrary: s)
  case Nil
  then show ?case by simp
next
  case (Cons x xs)
  from Cons.prems(2) obtain s1 where s1: "step x s = Some s1" "exec xs s1 = Some s'"
    by (auto split: option.splits)
  from Cons.IH [OF step_budget [OF Cons.prems(1) s1(1)] s1(2)] show ?case .
qed

lemma one_timeout_per_frame:
  assumes "exec acts (boot tf ws) = Some s"
  shows "count_list (printed s) (PrintTimeout n) \<le> 1"
proof -
  have "budget_inv (boot tf ws)"
    by (simp add: budget_inv_def timer_budget_def boot_def)
  from exec_budget [OF this assms] have "timer_budget s n \<le> 1" by (simp add: budget_inv_def)
  then show ?thesis by (simp add: timer_budget_def)
qed

subsection \<open>An abandoned frame stays abandoned\<close>

lemma admit_loop_threads:
  "(\<forall>t \<in> set (senders (admit_loop s)).
      t \<in> set (senders s) \<or> next_seq_num (shared s) \<le> sender_seq t) \<and>
   (\<forall>m \<in> set (timers (admit_loop s)). m \<in> set (timers s) \<or> next_seq_num (shared s) \<le> m)"
proof (induction s rule: admit_loop.induct)
  case (1 s)
  show ?case
  proof (cases "next_seq_num (shared s) < base (shared s) + window_size (shared s) \<and>
                next_seq_num (shared s) < total_frames (shared s)")
    case False
    then show ?thesis by (auto simp: admit_loop.simps [of s] Let_def)
  next
    case True
    let ?f = "Frame (next_seq_num (shared s)) (''Data'' @ str_int (next_seq_num (shared s)))"
    let ?s1 = "s\<lparr>printed := printed s @ [PrintSend (seq_num ?f)]\<rparr>"
    let ?s2 = "?s1\<lparr>senders := senders ?s1 @ [Started ?f]\<rparr>"
    let ?s3 = "start_timer ?s2 (seq_num ?f)"
    let ?s4 = "?s3\<lparr>shared := (shared s)\<lparr>next_seq_num := next_seq_num (shared s) + 1\<rparr>\<rparr>"
    from True have eq: "admit_loop s = admit_loop ?s4"
      by (subst admit_loop.simps) (simp add: Let_def)
    from "1.IH" [OF refl True refl refl refl refl]
    have IH: "(\<forall>t \<in> set (senders (admit_loop ?s4)).
      t \<in> set (senders ?s4) \<or> next_seq_num (shared ?s4) \<le> sender_seq t) \<and>
      (\<forall>m \<in> set (timers (admit_loop ?s4)). m \<in> set (timers ?s4) \<or> next_seq_num (shared ?s4) \<le> m)" .
    show ?thesis
      unfolding eq
    proof (intro conjI ballI)
      fix t assume "t \<in> set (senders (admit_loop ?s4))"
      with IH have "t \<in> set (senders ?s4) \<or> next_seq_num (shared ?s4) \<le> sender_seq t" by blast
      then show "t \<in> set (senders s) \<or> next_seq_num (shared s) \<le> sender_seq t"
        by (auto simp: start_timer_def Frame_def)
    next
      fix m assume "m \<in> set (timers (admit_loop ?s4))"
      with IH have "m \<in> set (timers ?s4) \<or> next_seq_num (shared ?s4) \<le> m" by blast
      then show "m \<in> set (timers s) \<or> next_seq_num (shared s) \<le> m"
        by (auto simp: start_timer_def Frame_def)
    qed
  qed
qed

lemma receive_ack_table:
  assumes "receive_ack a m = Inr (a', evs)" and "0 \<le> m"
  shows "ack_received a' = ack_received a \<or> ack_received a' = (ack_received a)[nat m := True]"
  using assms
  by (auto simp: receive_ack_def py_set_def py_index_def
      split: sum.splits if_splits prod.splits dest!: slide_keeps)

lemma abandoned_step:
  assumes w: "window_inv (shared s)" and t: "threads_inv s" and ab: "abandoned n s"
    and st: "step act s = Some s'"
  shows "abandoned n s'"
proof -
  from ab have n0: "0 \<le> n" and nn: "n < next_seq_num (shared s)"
    and un: "\<not> ack_received (shared s) ! nat n"
    and ns: "\<forall>t \<in> set (senders s). sender_seq t \<noteq> n" and nt: "n \<notin> set (timers s)"
    and nf: "pc s \<noteq> Finished"
    by (simp_all add: abandoned_def)
  show ?thesis
  proof (cases act)
    case MainStep
    show ?thesis
    proof (cases "pc s")
      case AtStart
      with MainStep st ab show ?thesis by (auto simp: run_step_def abandoned_def)
    next
      case AtLoopTest
      have "base (shared s) \<le> n"
      proof (rule ccontr)
        assume "\<not> base (shared s) \<le> n"
        with n0 have "nat n < nat (base (shared s))" by simp
        with w have "ack_received (shared s) ! nat n" by (simp add: window_inv_def)
        with un show False by simp
      qed
      with nn w have "base (shared s) < total_frames (shared s)" by (simp add: window_inv_def)
      with AtLoopTest MainStep st have "s' = s\<lparr>pc := AtLock\<rparr>" by (simp add: run_step_def)
      with ab show ?thesis by (simp add: abandoned_def)
    next
      case AtLock
      with MainStep st have s': "s' = (admit_loop s)\<lparr>pc := AtLoopTest\<rparr>"
        by (simp add: run_step_def)
      define N where "N = next_seq_num (shared (admit_loop s))"
      from admit_loop_keeps [of s]
      have sh: "shared (admit_loop s) = (shared s)\<lparr>next_seq_num := N\<rparr>"
        and le: "next_seq_num (shared s) \<le> N" by (simp_all add: N_def)
      from admit_loop_threads [of s] ns nn
      have "\<forall>t \<in> set (senders (admit_loop s)). sender_seq t \<noteq> n" by fastforce
      moreover from admit_loop_threads [of s] nt nn
      have "n \<notin> set (timers (admit_loop s))" by fastforce
      ultimately show ?thesis
        unfolding s' abandoned_def using n0 nn un le sh by simp
    next
      case Finished
      with nf show ?thesis by simp
    qed
  next
    case (SenderDraws f g)
    with st have mem: "Started f \<in> set (senders s)"
      by (simp add: sender_draws_def split: if_splits)
    with ns have fn: "seq_num f \<noteq> n" by force
    obtain g' evs oc where sf: "send_frame g f = (g', evs, oc)" by (cases "send_frame g f") auto
    show ?thesis
    proof (cases oc)
      case Dropped
      with SenderDraws st mem sf
      have "s' = s\<lparr>senders := remove1 (Started f) (senders s), printed := printed s @ evs\<rparr>"
        by (simp add: sender_draws_def)
      with ab show ?thesis by (auto simp: abandoned_def dest: notin_set_remove1)
    next
      case (AckAfter d m)
      with sf have "m = seq_num f" by (simp add: send_frame_seq)
      moreover from AckAfter SenderDraws st mem sf
      have "s' = s\<lparr>senders := remove1 (Started f) (senders s) @ [Sleeping d m],
                     printed := printed s @ evs\<rparr>"
        by (simp add: sender_draws_def)
      ultimately show ?thesis using ab fn
        by (auto simp: abandoned_def dest: notin_set_remove1)
    qed
  next
    case (SenderWakes d m)
    with st have mem: "Sleeping d m \<in> set (senders s)"
      by (simp add: sender_wakes_def split: if_splits)
    with ns have mn: "m \<noteq> n" by force
    from mem t have rng: "0 \<le> m" "m < next_seq_num (shared s)"
      by (force simp: threads_inv_def)+
    from receive_ack_inv [OF w rng]
    obtain a' evs where ra: "receive_ack (shared s) m = Inr (a', evs)" by auto
    from receive_ack_result [OF ra] have nx: "next_seq_num a' = next_seq_num (shared s)" by simp
    from receive_ack_table [OF ra rng(1)] un mn n0 rng(1)
    have un': "\<not> ack_received a' ! nat n" by auto
    from SenderWakes st mem ra
    have "s' = s\<lparr>shared := a', senders := remove1 (Sleeping d m) (senders s),
                   printed := printed s @ evs\<rparr>"
      by (simp add: sender_wakes_def)
    with ab nx un' show ?thesis by (auto simp: abandoned_def dest: notin_set_remove1)
  next
    case (TimerExpires m)
    with st have mem: "m \<in> set (timers s)"
      by (simp add: timer_expires_def split: if_splits)
    with nt have mn: "m \<noteq> n" by auto
    show ?thesis
    proof (cases "timer_thread (shared s) m")
      case (Inl e)
      with TimerExpires st mem
      have "s' = s\<lparr>timers := remove1 m (timers s), uncaught := uncaught s @ [e]\<rparr>"
        by (simp add: timer_expires_def split: if_splits)
      with ab show ?thesis by (auto simp: abandoned_def dest: notin_set_remove1)
    next
      case (Inr r)
      obtain evs fs where r: "r = (evs, fs)" by (cases r) auto
      with Inr have "\<forall>f \<in> set fs. seq_num f = m" by (simp add: timer_thread_frames)
      moreover from r Inr TimerExpires st mem
      have "s' = s\<lparr>timers := remove1 m (timers s), printed := printed s @ evs,
                     senders := senders s @ map Started fs\<rparr>"
        by (simp add: timer_expires_def split: if_splits)
      ultimately show ?thesis using ab mn
        by (auto simp: abandoned_def dest: notin_set_remove1)
    qed
  qed
qed

lemma abandoned_exec:
  "window_inv (shared s) \<Longrightarrow> threads_inv s \<Longrightarrow> abandoned n s \<Longrightarrow> exec acts s = Some s' \<Longrightarrow>
   abandoned n s' \<and> window_inv (shared s')"
proof (induction acts arbitrary: s)
  case Nil
  then show ?case by simp
next
  case (Cons x xs)
  from Cons.prems(4) obtain s1 where s1: "step x s = Some s1" "exec xs s1 = Some s'"
    by (auto split: option.splits)
  from step_inv [OF Cons.prems(1,2) s1(1)]
  have "window_inv (shared s1)" "threads_inv s1" by simp_all
  moreover from abandoned_step [OF Cons.prems(1,2,3) s1(1)] have "abandoned n s1" .
  ultimately show ?case using s1(2) by (rule Cons.IH)
qed

lemma abandoned_base:
  assumes "window_inv a" and "0 \<le> n" and "\<not> ack_received a ! nat n"
  shows "base a \<le> n"
proof (rule ccontr)
  assume "\<not> base a \<le> n"
  with assms(2) have "nat n < nat (base a)" by simp
  with assms(1) have "ack_received a ! nat n" by (simp add: window_inv_def)
  with assms(3) show False by simp
qed

subsection \<open>Rounded uniform draws stay within their range\<close>


section \<open>The claims\<close>

text \<open>
  C1. In every state a run reaches from a constructor call with non-negative
  \<open>total_frames\<close> and \<open>window_size\<close>: the ack table was created all false;
  \<open>0 \<le> base \<le> next_seq_num \<le> total_frames\<close> and
  \<open>next_seq_num - base \<le> window_size\<close>; whatever steps follow (admission by the run
  loop, \<open>receive_ack\<close>, timer expiry, a \<open>send_frame\<close> thread's draws), and
  whatever single call of \<open>receive_ack\<close> returns, \<open>base\<close> and
  \<open>next_seq_num\<close> do not decrease and a set table entry stays set; and with
  \<open>next_seq_num - base = window_size\<close> the admission loop admits nothing.
\<close>

theorem window_state_invariant:
  assumes "0 \<le> tf" and "0 \<le> ws" and "exec acts (boot tf ws) = Some s"
  shows "ack_received (shared (boot tf ws)) = replicate (nat tf) False \<and>
         total_frames (shared s) = tf \<and> window_size (shared s) = ws \<and>
         0 \<le> base (shared s) \<and> base (shared s) \<le> next_seq_num (shared s) \<and>
         next_seq_num (shared s) \<le> total_frames (shared s) \<and>
         next_seq_num (shared s) - base (shared s) \<le> window_size (shared s) \<and>
         (\<forall>later s'. exec later s = Some s' \<longrightarrow>
            base (shared s) \<le> base (shared s') \<and>
            next_seq_num (shared s) \<le> next_seq_num (shared s') \<and>
            length (ack_received (shared s')) = length (ack_received (shared s)) \<and>
            (\<forall>i. i < length (ack_received (shared s)) \<and> ack_received (shared s) ! i \<longrightarrow>
                 ack_received (shared s') ! i)) \<and>
         (\<forall>n a' evs. receive_ack (shared s) n = Inr (a', evs) \<longrightarrow>
            base (shared s) \<le> base a' \<and> next_seq_num (shared s) \<le> next_seq_num a' \<and>
            (\<forall>i. i < length (ack_received (shared s)) \<and> ack_received (shared s) ! i \<longrightarrow>
                 ack_received a' ! i)) \<and>
         (next_seq_num (shared s) - base (shared s) = window_size (shared s) \<longrightarrow>
            admit_loop s = s)"
proof -
  from reachable_inv [OF assms] have w: "window_inv (shared s)" by simp
  from exec_grows [OF assms(3)]
  have cfg: "total_frames (shared s) = tf \<and> window_size (shared s) = ws"
    by (simp add: grows_def boot_def SelectiveRepeatARQ_def)
  have init: "ack_received (shared (boot tf ws)) = replicate (nat tf) False"
    by (simp add: boot_def SelectiveRepeatARQ_def)
  from w have ptr: "0 \<le> base (shared s) \<and> base (shared s) \<le> next_seq_num (shared s) \<and>
         next_seq_num (shared s) \<le> total_frames (shared s) \<and>
         next_seq_num (shared s) - base (shared s) \<le> window_size (shared s)"
    by (simp add: window_inv_def table_ok_def)
  have mono: "\<forall>later s'. exec later s = Some s' \<longrightarrow>
            base (shared s) \<le> base (shared s') \<and>
            next_seq_num (shared s) \<le> next_seq_num (shared s') \<and>
            length (ack_received (shared s')) = length (ack_received (shared s)) \<and>
            (\<forall>i. i < length (ack_received (shared s)) \<and> ack_received (shared s) ! i \<longrightarrow>
                 ack_received (shared s') ! i)"
  proof (intro allI impI)
    fix later s' assume "exec later s = Some s'"
    from exec_grows [OF this] show "base (shared s) \<le> base (shared s') \<and>
            next_seq_num (shared s) \<le> next_seq_num (shared s') \<and>
            length (ack_received (shared s')) = length (ack_received (shared s)) \<and>
            (\<forall>i. i < length (ack_received (shared s)) \<and> ack_received (shared s) ! i \<longrightarrow>
                 ack_received (shared s') ! i)"
      by (simp add: grows_def)
  qed
  have ack: "\<forall>n a' evs. receive_ack (shared s) n = Inr (a', evs) \<longrightarrow>
            base (shared s) \<le> base a' \<and> next_seq_num (shared s) \<le> next_seq_num a' \<and>
            (\<forall>i. i < length (ack_received (shared s)) \<and> ack_received (shared s) ! i \<longrightarrow>
                 ack_received a' ! i)"
  proof (intro allI impI)
    fix n a' evs assume "receive_ack (shared s) n = Inr (a', evs)"
    from receive_ack_result [OF this]
    show "base (shared s) \<le> base a' \<and> next_seq_num (shared s) \<le> next_seq_num a' \<and>
            (\<forall>i. i < length (ack_received (shared s)) \<and> ack_received (shared s) ! i \<longrightarrow>
                 ack_received a' ! i)" by simp
  qed
  have full: "next_seq_num (shared s) - base (shared s) = window_size (shared s) \<longrightarrow>
            admit_loop s = s"
    by (simp add: admit_loop_full)
  from init cfg ptr mono ack full show ?thesis by blast
qed

text \<open>
  C1, for the program as shipped: the state after the first admission pass has a full
  window, the delivery of the ack for frame 1 follows it, and the admission loop leaves
  it as it is.
\<close>

theorem window_state_invariant_witness:
  "0 \<le> TOTAL_FRAMES \<and> 0 \<le> WINDOW_SIZE \<and>
   exec [MainStep, MainStep, MainStep] main = Some s_main_full \<and>
   exec [SenderDraws (Frame 1 ''Data1'') g_half, SenderWakes 1 1] s_main_full = Some s_main_acked_1 \<and>
   receive_ack (shared s_main_full) 1 = Inr (shared s_main_acked_1, [PrintAck 1]) \<and>
   next_seq_num (shared s_main_full) - base (shared s_main_full) = window_size (shared s_main_full) \<and>
   ack_received (shared main) = replicate 10 False \<and>
   0 \<le> base (shared s_main_full) \<and> base (shared s_main_full) \<le> next_seq_num (shared s_main_full) \<and>
   next_seq_num (shared s_main_full) \<le> total_frames (shared s_main_full) \<and>
   base (shared s_main_full) \<le> base (shared s_main_acked_1) \<and>
   next_seq_num (shared s_main_full) \<le> next_seq_num (shared s_main_acked_1) \<and>
   admit_loop s_main_full = s_main_full"
proof -
  have h: "0 \<le> TOTAL_FRAMES" "0 \<le> WINDOW_SIZE"
    by (simp_all add: TOTAL_FRAMES_def WINDOW_SIZE_def)
  have e1: "exec [MainStep, MainStep, MainStep] (boot TOTAL_FRAMES WINDOW_SIZE) = Some s_main_full"
    by code_simp
  have e2: "exec [SenderDraws (Frame 1 ''Data1'') g_half, SenderWakes 1 1] s_main_full
              = Some s_main_acked_1"
    by code_simp
  have e3: "receive_ack (shared s_main_full) 1 = Inr (shared s_main_acked_1, [PrintAck 1])"
    by code_simp
  have e4: "next_seq_num (shared s_main_full) - base (shared s_main_full)
              = window_size (shared s_main_full)"
    by (simp add: s_main_full_def)
  note T = window_state_invariant [OF h e1]
  from T have "ack_received (shared (boot TOTAL_FRAMES WINDOW_SIZE)) = replicate (nat TOTAL_FRAMES) False"
    by (rule conjunct1)
  then have c1: "ack_received (shared main) = replicate 10 False"
    by (simp add: main_def TOTAL_FRAMES_def)
  from T have c2: "0 \<le> base (shared s_main_full) \<and>
      base (shared s_main_full) \<le> next_seq_num (shared s_main_full) \<and>
      next_seq_num (shared s_main_full) \<le> total_frames (shared s_main_full)" by blast
  from T e2 have c3: "base (shared s_main_full) \<le> base (shared s_main_acked_1) \<and>
      next_seq_num (shared s_main_full) \<le> next_seq_num (shared s_main_acked_1)" by blast
  from T e4 have c4: "admit_loop s_main_full = s_main_full" by blast
  from e1 have e1': "exec [MainStep, MainStep, MainStep] main = Some s_main_full"
    by (simp add: main_def)
  from h e1' e2 e3 e4 c1 c2 c3 c4 show ?thesis by blast
qed

text \<open>
  C2. In every reachable state, \<open>receive_ack(seq)\<close> for a sequence number already
  sent (\<open>0 \<le> seq < next_seq_num\<close>) returns, and afterwards the table still has
  \<open>total_frames\<close> entries, every entry below
  \<open>base\<close> is set and \<open>base\<close> is \<open>total_frames\<close> or the entry at
  \<open>base\<close> is not set: \<open>base\<close> is the smallest unacknowledged index. With the
  window \<open>{0, 1}\<close> outstanding, the ack for 1 leaves \<open>base\<close> at 0 and the ack
  for 0 then moves it to 2 in that one call.
\<close>

theorem selective_window_slide:
  assumes "0 \<le> tf" and "0 \<le> ws" and "exec acts (boot tf ws) = Some s"
  shows "(0 \<le> n \<and> n < next_seq_num (shared s) \<longrightarrow>
            (\<exists>a' evs. receive_ack (shared s) n = Inr (a', evs) \<and>
               length (ack_received a') = nat (total_frames a') \<and>
               0 \<le> base a' \<and> base a' \<le> total_frames a' \<and>
               (\<forall>i. 0 \<le> i \<and> i < base a' \<longrightarrow> ack_received a' ! nat i) \<and>
               (base a' < total_frames a' \<longrightarrow> \<not> ack_received a' ! nat (base a')))) \<and>
         (base (shared s) = 0 \<and> next_seq_num (shared s) = 2 \<and> \<not> ack_received (shared s) ! 1 \<longrightarrow>
            (\<exists>a1 a2. receive_ack (shared s) 1 = Inr (a1, [PrintAck 1]) \<and> base a1 = 0 \<and>
               receive_ack a1 0 = Inr (a2, [PrintAck 0]) \<and> base a2 = 2))"
proof (intro conjI impI)
  from reachable_inv [OF assms] have w: "window_inv (shared s)" by simp
  {
    assume n: "0 \<le> n \<and> n < next_seq_num (shared s)"
    with receive_ack_inv [OF w, of n]
    obtain a' evs where a': "receive_ack (shared s) n = Inr (a', evs)" "window_inv a'" by auto
    from a'(2) have "length (ack_received a') = nat (total_frames a') \<and>
               0 \<le> base a' \<and> base a' \<le> total_frames a' \<and>
               (\<forall>i. 0 \<le> i \<and> i < base a' \<longrightarrow> ack_received a' ! nat i) \<and>
               (base a' < total_frames a' \<longrightarrow> \<not> ack_received a' ! nat (base a'))"
      by (auto simp: window_inv_def table_ok_def)
    with a'(1) show "\<exists>a' evs. receive_ack (shared s) n = Inr (a', evs) \<and>
               length (ack_received a') = nat (total_frames a') \<and>
               0 \<le> base a' \<and> base a' \<le> total_frames a' \<and>
               (\<forall>i. 0 \<le> i \<and> i < base a' \<longrightarrow> ack_received a' ! nat i) \<and>
               (base a' < total_frames a' \<longrightarrow> \<not> ack_received a' ! nat (base a'))" by blast
  }
  {
    assume h: "base (shared s) = 0 \<and> next_seq_num (shared s) = 2 \<and> \<not> ack_received (shared s) ! 1"
    let ?a = "shared s"
    let ?xs = "(ack_received ?a)[1 := True]"
    from w h have ok: "table_ok ?a" and tf2: "2 \<le> total_frames ?a"
      and len: "length (ack_received ?a) = nat (total_frames ?a)"
      and f0: "\<not> ack_received ?a ! 0"
      by (auto simp: window_inv_def table_ok_def)
    from tf2 h have "- total_frames ?a \<le> 1" "1 < total_frames ?a"
      "(1::nat) = nat (if (1::int) < 0 then 1 + total_frames ?a else 1)" "\<not> ack_received ?a ! 1"
      by auto
    from receive_ack_fresh [OF ok this]
    obtain b where b: "receive_ack ?a 1 = Inr (?a\<lparr>ack_received := ?xs, base := b\<rparr>, [PrintAck 1])"
      by auto
    let ?a1 = "?a\<lparr>ack_received := ?xs, base := b\<rparr>"
    from h have "(0::int) \<le> 1" "1 < next_seq_num ?a" by simp_all
    from receive_ack_inv [OF w this] b have w1: "window_inv ?a1" by simp
    have b0: "b = 0"
    proof (rule ccontr)
      assume "b \<noteq> 0"
      with w1 have "0 < nat b" by (simp add: window_inv_def table_ok_def)
      moreover from w1 have "\<forall>i. i < nat b \<longrightarrow> ?xs ! i" by (simp add: window_inv_def)
      ultimately have "?xs ! 0" by blast
      with f0 show False by simp
    qed
    let ?ys = "?xs[0 := True]"
    from w1 have ok1: "table_ok ?a1" by (simp add: window_inv_def)
    from tf2 have "- total_frames ?a1 \<le> 0" "0 < total_frames ?a1"
      "(0::nat) = nat (if (0::int) < 0 then 0 + total_frames ?a1 else 0)" by auto
    moreover from f0 have "\<not> ack_received ?a1 ! 0" by simp
    ultimately obtain c where
      c: "receive_ack ?a1 0 = Inr (?a1\<lparr>ack_received := ?ys, base := c\<rparr>, [PrintAck 0])"
      using receive_ack_fresh [OF ok1, of 0 0] by auto
    let ?a2 = "?a1\<lparr>ack_received := ?ys, base := c\<rparr>"
    from h have "(0::int) \<le> 0" "0 < next_seq_num ?a1" by simp_all
    from receive_ack_inv [OF w1 this] c have w2: "window_inv ?a2" by simp
    from w2 h have c2: "0 \<le> c" "c \<le> 2" by (simp_all add: window_inv_def table_ok_def)
    from len tf2 have set: "?ys ! 0" "?ys ! 1" by (simp_all add: nth_list_update)
    have "c = 2"
    proof (rule ccontr)
      assume "c \<noteq> 2"
      with c2 have "c = 0 \<or> c = 1" by auto
      moreover from w2 tf2 c2 \<open>c \<noteq> 2\<close> have "\<not> ?ys ! nat c" by (simp add: window_inv_def)
      ultimately show False using set by auto
    qed
    with b c b0 show "\<exists>a1 a2. receive_ack (shared s) 1 = Inr (a1, [PrintAck 1]) \<and> base a1 = 0 \<and>
               receive_ack a1 0 = Inr (a2, [PrintAck 0]) \<and> base a2 = 2"
      by (intro exI [of _ ?a1] exI [of _ ?a2]) simp
  }
qed

text \<open>
  C2, at three frames and a window of two, after the first admission pass.
\<close>

theorem selective_window_slide_witness:
  "exec [MainStep, MainStep, MainStep] (boot 3 2) = Some s_window_01 \<and>
   (1::int) < next_seq_num (shared s_window_01) \<and>
   base (shared s_window_01) = 0 \<and> next_seq_num (shared s_window_01) = 2 \<and>
   \<not> ack_received (shared s_window_01) ! 1 \<and>
   (\<exists>a' evs. receive_ack (shared s_window_01) 1 = Inr (a', evs) \<and>
      length (ack_received a') = nat (total_frames a') \<and>
               0 \<le> base a' \<and> base a' \<le> total_frames a' \<and>
      (\<forall>i. 0 \<le> i \<and> i < base a' \<longrightarrow> ack_received a' ! nat i) \<and>
      (base a' < total_frames a' \<longrightarrow> \<not> ack_received a' ! nat (base a'))) \<and>
   (\<exists>a1 a2. receive_ack (shared s_window_01) 1 = Inr (a1, [PrintAck 1]) \<and> base a1 = 0 \<and>
      receive_ack a1 0 = Inr (a2, [PrintAck 0]) \<and> base a2 = 2)"
proof -
  have h: "(0::int) \<le> 3" "(0::int) \<le> 2" by simp_all
  have e1: "exec [MainStep, MainStep, MainStep] (boot 3 2) = Some s_window_01" by code_simp
  have e2: "(0::int) \<le> 1 \<and> (1::int) < next_seq_num (shared s_window_01)"
    by (simp add: s_window_01_def)
  have e3: "base (shared s_window_01) = 0 \<and> next_seq_num (shared s_window_01) = 2 \<and>
    \<not> ack_received (shared s_window_01) ! 1" by (simp add: s_window_01_def)
  note T = selective_window_slide [OF h e1, of 1]
  from T e2 have c1: "\<exists>a' evs. receive_ack (shared s_window_01) 1 = Inr (a', evs) \<and>
      length (ack_received a') = nat (total_frames a') \<and>
               0 \<le> base a' \<and> base a' \<le> total_frames a' \<and>
      (\<forall>i. 0 \<le> i \<and> i < base a' \<longrightarrow> ack_received a' ! nat i) \<and>
      (base a' < total_frames a' \<longrightarrow> \<not> ack_received a' ! nat (base a'))" by blast
  from T e3 have c2: "\<exists>a1 a2. receive_ack (shared s_window_01) 1 = Inr (a1, [PrintAck 1]) \<and>
      base a1 = 0 \<and> receive_ack a1 0 = Inr (a2, [PrintAck 0]) \<and> base a2 = 2" by blast
  from e1 e2 e3 c1 c2 show ?thesis by blast
qed

text \<open>
  C3. For a sequence number in \<open>[0, total_frames)\<close>, \<open>receive_ack\<close> returns, and a
  second call right after it returns the very same object and prints nothing.
\<close>

theorem receive_ack_idempotent:
  assumes "table_ok a" and "0 \<le> n" and "n < total_frames a"
  shows "\<exists>a1 evs. receive_ack a n = Inr (a1, evs) \<and> receive_ack a1 n = Inr (a1, [])"
proof -
  from receive_ack_returns [OF assms]
  obtain a1 evs where r: "receive_ack a n = Inr (a1, evs)" by blast
  from receive_ack_then_acked [OF r] have "receive_ack a1 n = Inr (a1, [])"
    by (rule receive_ack_acked)
  with r show ?thesis by blast
qed

text \<open>
  C3, for frame 1 of a fresh object with three frames.
\<close>

theorem receive_ack_idempotent_witness:
  "table_ok (SelectiveRepeatARQ 3 2) \<and> (0::int) \<le> 1 \<and>
   (1::int) < total_frames (SelectiveRepeatARQ 3 2) \<and>
   (\<exists>a1 evs. receive_ack (SelectiveRepeatARQ 3 2) 1 = Inr (a1, evs) \<and>
      receive_ack a1 1 = Inr (a1, []))"
proof -
  have h: "table_ok (SelectiveRepeatARQ 3 2)" "(0::int) \<le> 1"
    "(1::int) < total_frames (SelectiveRepeatARQ 3 2)"
    by (simp_all add: table_ok_def SelectiveRepeatARQ_def)
  from receive_ack_idempotent [OF h] h show ?thesis by blast
qed

text \<open>
  C4. The timer callback reads the ack-table entry in the same atomic step that starts
  the retransmission. When the entry is set, the step prints nothing and starts no
  \<open>send_frame\<close> thread; a step that prints or starts a thread found the entry
  unset, and then prints the one timeout line and starts the one retransmission. The
  object itself is never changed by the callback.
\<close>

theorem expiry_rechecks_ack_table:
  assumes "step (TimerExpires n) s = Some s'"
  shows "shared s' = shared s \<and> timers s' = remove1 n (timers s) \<and>
         (py_get (ack_received (shared s)) n = Inr True \<longrightarrow>
            printed s' = printed s \<and> senders s' = senders s) \<and>
         (printed s' \<noteq> printed s \<or> senders s' \<noteq> senders s \<longrightarrow>
            py_get (ack_received (shared s)) n = Inr False \<and>
            printed s' = printed s @ [PrintTimeout n] \<and>
            senders s' = senders s @ [Started (Frame n (''Data'' @ str_int n))])"
proof (cases "py_get (ack_received (shared s)) n")
  case (Inl e)
  with assms show ?thesis
    by (auto simp: timer_expires_def timer_thread_def split: if_splits)
next
  case (Inr acked)
  with assms show ?thesis
    by (cases acked) (auto simp: timer_expires_def timer_thread_def split: if_splits)
qed

text \<open>
  C4, for a timer that expires after the ack of its frame and for one that expires
  before it.
\<close>

theorem expiry_rechecks_ack_table_witness:
  "step (TimerExpires 0) s_acked_0 = Some (s_acked_0\<lparr>timers := []\<rparr>) \<and>
   py_get (ack_received (shared s_acked_0)) 0 = Inr True \<and>
   printed (s_acked_0\<lparr>timers := []\<rparr>) = printed s_acked_0 \<and>
   senders (s_acked_0\<lparr>timers := []\<rparr>) = senders s_acked_0 \<and>
   step (TimerExpires 0) s_sent_0 =
     Some (s_sent_0\<lparr>timers := [], printed := [PrintStarting, PrintSend 0, PrintTimeout 0],
                    senders := [Started (Frame 0 ''Data0''), Started (Frame 0 ''Data0'')]\<rparr>) \<and>
   py_get (ack_received (shared s_sent_0)) 0 = Inr False"
proof -
  have e1: "step (TimerExpires 0) s_acked_0 = Some (s_acked_0\<lparr>timers := []\<rparr>)" by code_simp
  have e2: "py_get (ack_received (shared s_acked_0)) 0 = Inr True" by code_simp
  have e3: "step (TimerExpires 0) s_sent_0 =
     Some (s_sent_0\<lparr>timers := [], printed := [PrintStarting, PrintSend 0, PrintTimeout 0],
                    senders := [Started (Frame 0 ''Data0''), Started (Frame 0 ''Data0'')]\<rparr>)"
    by code_simp
  have e4: "printed (s_sent_0\<lparr>timers := [], printed := [PrintStarting, PrintSend 0, PrintTimeout 0],
                    senders := [Started (Frame 0 ''Data0''), Started (Frame 0 ''Data0'')]\<rparr>)
            \<noteq> printed s_sent_0" by (simp add: s_sent_0_def)
  from expiry_rechecks_ack_table [OF e1] e2
  have c1: "printed (s_acked_0\<lparr>timers := []\<rparr>) = printed s_acked_0 \<and>
            senders (s_acked_0\<lparr>timers := []\<rparr>) = senders s_acked_0" by blast
  from expiry_rechecks_ack_table [OF e3] e4
  have c2: "py_get (ack_received (shared s_sent_0)) 0 = Inr False" by blast
  from e1 e2 e3 c1 c2 show ?thesis by blast
qed

text \<open>
  C5. The run loop starts a timer with every frame it sends, whereas the timer callback
  starts the retransmission without a timer. In the program as shipped, once the first
  attempt of frame 0 and its retransmission are both lost, no thread is left that could
  send frame 0 again: whatever happens afterwards, frame 0 stays unacknowledged,
  \<open>base\<close> stays 0 and \<open>run\<close> never returns. In every run of every
  configuration, at most one timeout line is printed per sequence number: no frame is
  retransmitted twice.
\<close>

theorem lost_retransmission_is_final:
  "exec [MainStep, MainStep, MainStep, SenderDraws (Frame 0 ''Data0'') g_zero,
         TimerExpires 0, SenderDraws (Frame 0 ''Data0'') g_zero] main = Some s_main_lost_0 \<and>
   (\<forall>acts s'. exec acts s_main_lost_0 = Some s' \<longrightarrow>
      \<not> ack_received (shared s') ! 0 \<and> base (shared s') = 0 \<and>
      (\<forall>t \<in> set (senders s'). sender_seq t \<noteq> 0) \<and> 0 \<notin> set (timers s') \<and>
      pc s' \<noteq> Finished) \<and>
   (\<forall>tf ws acts s n. exec acts (boot tf ws) = Some s \<longrightarrow>
      count_list (printed s) (PrintTimeout n) \<le> 1)"
proof -
  have run: "exec [MainStep, MainStep, MainStep, SenderDraws (Frame 0 ''Data0'') g_zero,
         TimerExpires 0, SenderDraws (Frame 0 ''Data0'') g_zero] (boot TOTAL_FRAMES WINDOW_SIZE)
         = Some s_main_lost_0"
    by code_simp
  have "0 \<le> TOTAL_FRAMES" "0 \<le> WINDOW_SIZE" by (simp_all add: TOTAL_FRAMES_def WINDOW_SIZE_def)
  from reachable_inv [OF this run]
  have inv: "window_inv (shared s_main_lost_0)" "threads_inv s_main_lost_0" by simp_all
  have ab: "abandoned 0 s_main_lost_0"
    by (simp add: abandoned_def s_main_lost_0_def Frame_def)
  have stuck: "\<not> ack_received (shared s') ! 0 \<and> base (shared s') = 0 \<and>
      (\<forall>t \<in> set (senders s'). sender_seq t \<noteq> 0) \<and> 0 \<notin> set (timers s') \<and>
      pc s' \<noteq> Finished"
    if "exec acts s_main_lost_0 = Some s'" for acts s'
  proof -
    from abandoned_exec [OF inv ab that]
    have a: "abandoned 0 s'" and w: "window_inv (shared s')" by simp_all
    from a have un: "\<not> ack_received (shared s') ! nat 0" by (simp add: abandoned_def)
    from abandoned_base [OF w _ un] w have "base (shared s') = 0"
      by (simp add: window_inv_def table_ok_def)
    with a show ?thesis by (simp add: abandoned_def)
  qed
  have once: "count_list (printed s) (PrintTimeout n) \<le> 1"
    if "exec acts (boot tf ws) = Some s" for tf ws acts s n
    using that by (rule one_timeout_per_frame)
  from run have "exec [MainStep, MainStep, MainStep, SenderDraws (Frame 0 ''Data0'') g_zero,
         TimerExpires 0, SenderDraws (Frame 0 ''Data0'') g_zero] main = Some s_main_lost_0"
    by (simp add: main_def)
  with stuck once show ?thesis by blast
qed

text \<open>
  C5, for two further steps of the main thread after both attempts of frame 0 were lost.
\<close>

theorem lost_retransmission_is_final_witness:
  "exec [MainStep, MainStep, MainStep, SenderDraws (Frame 0 ''Data0'') g_zero,
         TimerExpires 0, SenderDraws (Frame 0 ''Data0'') g_zero] main = Some s_main_lost_0 \<and>
   exec [MainStep, MainStep] s_main_lost_0 = Some s_main_lost_0 \<and>
   \<not> ack_received (shared s_main_lost_0) ! 0 \<and> base (shared s_main_lost_0) = 0 \<and>
   0 \<notin> set (timers s_main_lost_0) \<and> pc s_main_lost_0 \<noteq> Finished \<and>
   count_list (printed s_main_lost_0) (PrintTimeout 0) \<le> 1"
proof -
  have e: "exec [MainStep, MainStep] s_main_lost_0 = Some s_main_lost_0" by code_simp
  note T = lost_retransmission_is_final
  from T have r: "exec [MainStep, MainStep, MainStep, SenderDraws (Frame 0 ''Data0'') g_zero,
         TimerExpires 0, SenderDraws (Frame 0 ''Data0'') g_zero] main = Some s_main_lost_0"
    by (rule conjunct1)
  from T e have c1: "\<not> ack_received (shared s_main_lost_0) ! 0 \<and> base (shared s_main_lost_0) = 0 \<and>
   0 \<notin> set (timers s_main_lost_0) \<and> pc s_main_lost_0 \<noteq> Finished" by blast
  from r have "exec [MainStep, MainStep, MainStep, SenderDraws (Frame 0 ''Data0'') g_zero,
         TimerExpires 0, SenderDraws (Frame 0 ''Data0'') g_zero] (boot TOTAL_FRAMES WINDOW_SIZE)
         = Some s_main_lost_0" by (simp add: main_def)
  with T have c2: "count_list (printed s_main_lost_0) (PrintTimeout 0) \<le> 1" by blast
  from e r c1 c2 show ?thesis by blast
qed

text \<open>
  C6. The flag of the timer of \<open>seq\<close> is the entry \<open>ack_received[seq]\<close>. In the
  atomic step in which a \<open>send_frame\<close> thread's call \<open>receive_ack(seq)\<close> returns,
  the timer is inactive; a call that finds the entry unset is the one that sets it, and
  prints the ack line. The timer stays inactive through whatever steps follow, so when
  it expires its callback prints nothing and starts no thread: the expiry changes
  neither the object nor the output nor the \<open>send_frame\<close> threads.
\<close>

theorem ack_deactivates_timer:
  assumes "step (SenderWakes d n) s = Some s1"
    and "receive_ack (shared s) n = Inr (a1, evs)"
    and "exec later s1 = Some s2"
    and "step (TimerExpires n) s2 = Some s3"
  shows "shared s1 = a1 \<and> timer_inactive (shared s1) n \<and>
         (\<not> timer_inactive (shared s) n \<longrightarrow> evs = [PrintAck n]) \<and>
         timer_inactive (shared s2) n \<and> timer_thread (shared s2) n = Inr ([], []) \<and>
         shared s3 = shared s2 \<and> printed s3 = printed s2 \<and> senders s3 = senders s2 \<and>
         timers s3 = remove1 n (timers s2)"
proof -
  from assms(1,2) have s1: "shared s1 = a1"
    by (auto simp: sender_wakes_def split: if_splits)
  from receive_ack_then_acked [OF assms(2)] s1
  have i1: "py_get (ack_received (shared s1)) n = Inr True" by simp
  from assms(2) have first: "\<not> timer_inactive (shared s) n \<longrightarrow> evs = [PrintAck n]"
    by (auto simp: receive_ack_def timer_inactive_def split: sum.splits if_splits prod.splits)
  from i1 exec_grows [OF assms(3)] have i2: "py_get (ack_received (shared s2)) n = Inr True"
    by (rule grows_acked [rotated])
  from i2 have quiet: "timer_thread (shared s2) n = Inr ([], [])" by (rule timer_thread_acked)
  from timer_expires_acked [OF i2 assms(4)]
  have "shared s3 = shared s2 \<and> printed s3 = printed s2 \<and> senders s3 = senders s2 \<and>
        timers s3 = remove1 n (timers s2)" by simp
  with s1 i1 i2 first quiet show ?thesis by (simp add: timer_inactive_def)
qed

text \<open>
  C6, in a run of two frames: frame 0 is acknowledged after one second, the main thread
  goes once round its loop, and the timer of frame 0 expires after two seconds, while
  the reordered frame 1 is still on its way.
\<close>

theorem ack_deactivates_timer_witness:
  "exec [MainStep, MainStep, MainStep, SenderDraws (Frame 1 ''Data1'') g_reorder,
         SenderDraws (Frame 0 ''Data0'') g_half] (boot 2 2) = Some s_two_asleep \<and>
   step (SenderWakes 1 0) s_two_asleep = Some s_two_acked_0 \<and>
   receive_ack (shared s_two_asleep) 0 = Inr (shared s_two_acked_0, [PrintAck 0]) \<and>
   exec [MainStep, MainStep] s_two_acked_0 = Some s_two_acked_0 \<and>
   step (TimerExpires 0) s_two_acked_0 = Some (s_two_acked_0\<lparr>timers := [1]\<rparr>) \<and>
   \<not> timer_inactive (shared s_two_asleep) 0 \<and>
   timer_inactive (shared s_two_acked_0) 0 \<and>
   timer_thread (shared s_two_acked_0) 0 = Inr ([], []) \<and>
   printed (s_two_acked_0\<lparr>timers := [1]\<rparr>) = printed s_two_acked_0 \<and>
   senders (s_two_acked_0\<lparr>timers := [1]\<rparr>) = senders s_two_acked_0"
proof -
  have e0: "exec [MainStep, MainStep, MainStep, SenderDraws (Frame 1 ''Data1'') g_reorder,
         SenderDraws (Frame 0 ''Data0'') g_half] (boot 2 2) = Some s_two_asleep"
    by code_simp
  have e1: "step (SenderWakes 1 0) s_two_asleep = Some s_two_acked_0" by code_simp
  have e2: "receive_ack (shared s_two_asleep) 0 = Inr (shared s_two_acked_0, [PrintAck 0])"
    by code_simp
  have e3: "exec [MainStep, MainStep] s_two_acked_0 = Some s_two_acked_0" by code_simp
  have e4: "step (TimerExpires 0) s_two_acked_0 = Some (s_two_acked_0\<lparr>timers := [1]\<rparr>)"
    by code_simp
  have e5: "\<not> timer_inactive (shared s_two_asleep) 0"
    by (simp add: timer_inactive_def s_two_asleep_def py_get_def py_index_def)
  note T = ack_deactivates_timer [OF e1 e2 e3 e4]
  from T have c1: "timer_inactive (shared s_two_acked_0) 0 \<and>
      timer_thread (shared s_two_acked_0) 0 = Inr ([], [])" by blast
  from T have c2: "printed (s_two_acked_0\<lparr>timers := [1]\<rparr>) = printed s_two_acked_0 \<and>
      senders (s_two_acked_0\<lparr>timers := [1]\<rparr>) = senders s_two_acked_0" by blast
  from e0 e1 e2 e3 e4 e5 c1 c2 show ?thesis by blast
qed

text \<open>
  C7, as the specification states it, fails: on a fresh object with three frames, where
  nothing has been sent, \<open>receive_ack(2)\<close> returns normally, records the
  acknowledgment and prints it.
\<close>

theorem unsent_ack_accepted:
  "next_seq_num (SelectiveRepeatARQ 3 2) = 0 \<and> total_frames (SelectiveRepeatARQ 3 2) = 3 \<and>
   receive_ack (SelectiveRepeatARQ 3 2) 2 =
     Inr (\<lparr>total_frames = 3, window_size = 2, base = 0, next_seq_num = 0,
           ack_received = [False, False, True]\<rparr>, [PrintAck 2])"
  by code_simp

text \<open>
  C7, amended. Under the window invariant, an ack for a sequence number from
  \<open>next_seq_num\<close> up to \<open>total_frames - 1\<close> is recorded like any other: the
  entry is set, the ack line is printed, no exception is raised. An ack for a sequence
  number below \<open>base\<close> changes nothing and prints nothing.
\<close>

theorem ack_beyond_next_seq_recorded:
  assumes "window_inv a"
  shows "(next_seq_num a \<le> n \<and> n < total_frames a \<longrightarrow>
            (\<exists>b. receive_ack a n =
               Inr (a\<lparr>ack_received := (ack_received a)[nat n := True], base := b\<rparr>,
                    [PrintAck n]))) \<and>
         (0 \<le> n \<and> n < base a \<longrightarrow> receive_ack a n = Inr (a, []))"
proof (intro conjI impI)
  from assms have ok: "table_ok a" and len: "length (ack_received a) = nat (total_frames a)"
    and b0: "0 \<le> base a" and bn: "base a \<le> next_seq_num a"
    and nt: "next_seq_num a \<le> total_frames a"
    and below: "\<forall>i. i < nat (base a) \<longrightarrow> ack_received a ! i"
    and beyond: "\<forall>i. nat (next_seq_num a) \<le> i \<and> i < length (ack_received a) \<longrightarrow> \<not> ack_received a ! i"
    by (simp_all add: window_inv_def table_ok_def)
  {
    assume n: "next_seq_num a \<le> n \<and> n < total_frames a"
    with b0 bn len beyond have "\<not> ack_received a ! nat n" by auto
    moreover from n b0 bn have "- total_frames a \<le> n" "n < total_frames a"
      "nat n = nat (if n < 0 then n + total_frames a else n)" by auto
    ultimately show "\<exists>b. receive_ack a n =
               Inr (a\<lparr>ack_received := (ack_received a)[nat n := True], base := b\<rparr>,
                    [PrintAck n])"
      using receive_ack_fresh [OF ok, of n "nat n"] by blast
  }
  {
    assume n: "0 \<le> n \<and> n < base a"
    with below have "ack_received a ! nat n" by simp
    moreover from n bn nt len have "py_get (ack_received a) n = Inr (ack_received a ! nat n)"
      by (simp add: py_get_in_range)
    ultimately show "receive_ack a n = Inr (a, [])" by (simp add: receive_ack_acked)
  }
qed

text \<open>
  C7, amended, for an object with frame 0 acknowledged and frame 1 outstanding.
\<close>

theorem ack_beyond_next_seq_recorded_witness:
  "window_inv a_mid \<and> next_seq_num a_mid \<le> 2 \<and> 2 < total_frames a_mid \<and> 0 < base a_mid \<and>
   (\<exists>b. receive_ack a_mid 2 =
      Inr (a_mid\<lparr>ack_received := (ack_received a_mid)[nat 2 := True], base := b\<rparr>,
           [PrintAck 2])) \<and>
   receive_ack a_mid 0 = Inr (a_mid, [])"
proof -
  have w: "window_inv a_mid"
    by (auto simp: window_inv_def table_ok_def a_mid_def nth_Cons')
  have h: "next_seq_num a_mid \<le> 2 \<and> 2 < total_frames a_mid" "(0::int) \<le> 0 \<and> 0 < base a_mid"
    by (simp_all add: a_mid_def)
  from ack_beyond_next_seq_recorded [OF w, of 2] h(1)
  have c1: "\<exists>b. receive_ack a_mid 2 =
      Inr (a_mid\<lparr>ack_received := (ack_received a_mid)[nat 2 := True], base := b\<rparr>,
           [PrintAck 2])" by blast
  from ack_beyond_next_seq_recorded [OF w, of 0] h(2)
  have c2: "receive_ack a_mid 0 = Inr (a_mid, [])" by blast
  from w h c1 c2 show ?thesis by blast
qed

text \<open>
  C8, as the specification states it, fails: with a window of five for three frames the
  constructor returns an object, and the run admits all three frames.
\<close>

theorem oversized_window_constructed:
  "SelectiveRepeatARQ 3 5 =
     \<lparr>total_frames = 3, window_size = 5, base = 0, next_seq_num = 0,
      ack_received = [False, False, False]\<rparr> \<and>
   exec [MainStep, MainStep, MainStep] (boot 3 5) =
     Some \<lparr>shared = \<lparr>total_frames = 3, window_size = 5, base = 0, next_seq_num = 3,
                     ack_received = [False, False, False]\<rparr>,
           pc = AtLoopTest,
           senders = [Started (Frame 0 ''Data0''), Started (Frame 1 ''Data1''),
                      Started (Frame 2 ''Data2'')],
           timers = [0, 1, 2], printed = [PrintStarting, PrintSend 0, PrintSend 1, PrintSend 2], uncaught = []\<rparr>"
  by code_simp

text \<open>
  C8, amended. The constructor checks nothing: for all arguments it returns the object
  with both pointers at 0 and a table of \<open>max(0, total_frames)\<close> unset entries, and
  \<open>run\<close> starts on it. With \<open>0 < total_frames < window_size\<close> the first
  admission pass sends every frame. The loss and reorder probabilities and the timeout
  are the module's constants, which no code inspects.
\<close>

theorem constructor_accepts_every_configuration:
  "SelectiveRepeatARQ tf ws =
     \<lparr>total_frames = tf, window_size = ws, base = 0, next_seq_num = 0,
      ack_received = replicate (nat tf) False\<rparr> \<and>
   exec [MainStep, MainStep] (boot tf ws) =
     Some ((boot tf ws)\<lparr>printed := (if 0 < tf then [PrintStarting] else [PrintStarting, PrintDone]),
                        pc := (if 0 < tf then AtLock else Finished)\<rparr>) \<and>
   (0 < tf \<and> tf < ws \<longrightarrow>
      (\<exists>s. exec [MainStep, MainStep, MainStep] (boot tf ws) = Some s \<and> uncaught s = [] \<and>
           shared s = (SelectiveRepeatARQ tf ws)\<lparr>next_seq_num := tf\<rparr>)) \<and>
   LOSS_PROBABILITY = 1 / 5 \<and> REORDER_PROBABILITY = 1 / 5 \<and> TIMEOUT = 2"
proof (intro conjI impI)
  show "SelectiveRepeatARQ tf ws =
     \<lparr>total_frames = tf, window_size = ws, base = 0, next_seq_num = 0,
      ack_received = replicate (nat tf) False\<rparr>"
    by (simp add: SelectiveRepeatARQ_def)
next
  show "exec [MainStep, MainStep] (boot tf ws) =
     Some ((boot tf ws)\<lparr>printed := (if 0 < tf then [PrintStarting] else [PrintStarting, PrintDone]),
                        pc := (if 0 < tf then AtLock else Finished)\<rparr>)"
    by (simp add: run_step_def boot_def SelectiveRepeatARQ_def)
next
  assume cfg: "0 < tf \<and> tf < ws"
  let ?s2 = "(boot tf ws)\<lparr>printed := [PrintStarting], pc := AtLock\<rparr>"
  let ?s3 = "(admit_loop ?s2)\<lparr>pc := AtLoopTest\<rparr>"
  define N where "N = next_seq_num (shared (admit_loop ?s2))"
  from cfg have run: "exec [MainStep, MainStep, MainStep] (boot tf ws) = Some ?s3"
    by (simp add: run_step_def boot_def SelectiveRepeatARQ_def)
  from admit_loop_next [of ?s2] cfg have "N = tf"
    by (simp add: N_def boot_def SelectiveRepeatARQ_def)
  moreover from admit_loop_keeps [of ?s2]
  have "shared (admit_loop ?s2) = (shared ?s2)\<lparr>next_seq_num := N\<rparr>"
    and "uncaught (admit_loop ?s2) = uncaught ?s2" by (simp_all add: N_def)
  ultimately have "uncaught ?s3 = [] \<and> shared ?s3 = (SelectiveRepeatARQ tf ws)\<lparr>next_seq_num := tf\<rparr>"
    by (simp add: boot_def)
  with run show "\<exists>s. exec [MainStep, MainStep, MainStep] (boot tf ws) = Some s \<and> uncaught s = [] \<and>
           shared s = (SelectiveRepeatARQ tf ws)\<lparr>next_seq_num := tf\<rparr>" by blast
next
  show "LOSS_PROBABILITY = 1 / 5" by (simp add: LOSS_PROBABILITY_def)
next
  show "REORDER_PROBABILITY = 1 / 5" by (simp add: REORDER_PROBABILITY_def)
next
  show "TIMEOUT = 2" by (simp add: TIMEOUT_def)
qed

text \<open>
  C8, amended, at three frames and a window of five.
\<close>

theorem constructor_accepts_every_configuration_witness:
  "(0::int) < 3 \<and> (3::int) < 5 \<and>
   (\<exists>s. exec [MainStep, MainStep, MainStep] (boot 3 5) = Some s \<and> uncaught s = [] \<and>
        shared s = (SelectiveRepeatARQ 3 5)\<lparr>next_seq_num := 3\<rparr>)"
proof -
  have h: "(0::int) < 3 \<and> (3::int) < 5" by simp
  with constructor_accepts_every_configuration [of 3 5] show ?thesis by blast
qed




text \<open>
  C10. On an object whose table has its constructed length, \<open>receive_ack(seq)\<close>
  returns for \<open>0 \<le> seq < total_frames\<close>; raises \<open>IndexError\<close>, with the object
  untouched, for \<open>seq \<ge> total_frames\<close> and for \<open>seq < -total_frames\<close>; and for
  \<open>-total_frames \<le> seq < 0\<close> returns normally with the entry
  \<open>total_frames + seq\<close> set.
\<close>

theorem receive_ack_index_bounds:
  assumes "table_ok a"
  shows "(0 \<le> n \<and> n < total_frames a \<longrightarrow> (\<exists>a' evs. receive_ack a n = Inr (a', evs))) \<and>
         (total_frames a \<le> n \<longrightarrow> receive_ack a n = Inl (IndexError, a, [])) \<and>
         (n < - total_frames a \<longrightarrow> receive_ack a n = Inl (IndexError, a, [])) \<and>
         (- total_frames a \<le> n \<and> n < 0 \<longrightarrow>
            (\<exists>a' evs. receive_ack a n = Inr (a', evs) \<and>
               ack_received a' ! nat (total_frames a + n) \<and>
               (\<not> ack_received a ! nat (total_frames a + n) \<longrightarrow>
                  evs = [PrintAck n] \<and>
                  ack_received a' = (ack_received a)[nat (total_frames a + n) := True])))"
proof (intro conjI impI)
  from assms have len: "length (ack_received a) = nat (total_frames a)"
    by (simp add: table_ok_def)
  {
    assume n: "0 \<le> n \<and> n < total_frames a"
    with receive_ack_returns [OF assms, of n]
    show "\<exists>a' evs. receive_ack a n = Inr (a', evs)" by blast
  }
  {
    assume "total_frames a \<le> n"
    with len have "py_get (ack_received a) n = Inl IndexError"
      by (auto simp: py_get_def py_index_def)
    then show "receive_ack a n = Inl (IndexError, a, [])" by (simp add: receive_ack_def)
  }
  {
    assume "n < - total_frames a"
    with len have "py_get (ack_received a) n = Inl IndexError"
      by (auto simp: py_get_def py_index_def)
    then show "receive_ack a n = Inl (IndexError, a, [])" by (simp add: receive_ack_def)
  }
  {
    assume n: "- total_frames a \<le> n \<and> n < 0"
    let ?j = "nat (total_frames a + n)"
    from n have j: "?j = nat (if n < 0 then n + total_frames a else n)" by (simp add: add.commute)
    from n len have jl: "?j < length (ack_received a)" by auto
    show "\<exists>a' evs. receive_ack a n = Inr (a', evs) \<and> ack_received a' ! ?j \<and>
               (\<not> ack_received a ! ?j \<longrightarrow>
                  evs = [PrintAck n] \<and> ack_received a' = (ack_received a)[?j := True])"
    proof (cases "ack_received a ! ?j")
      case True
      from n len j have "py_get (ack_received a) n = Inr (ack_received a ! ?j)"
        by (auto simp: py_get_def py_index_def)
      with True have "receive_ack a n = Inr (a, [])" by (simp add: receive_ack_acked)
      with True show ?thesis by simp
    next
      case False
      from n have "- total_frames a \<le> n" "n < total_frames a" by auto
      from receive_ack_fresh [OF assms this j False]
      obtain b where "receive_ack a n =
          Inr (a\<lparr>ack_received := (ack_received a)[?j := True], base := b\<rparr>, [PrintAck n])"
        by blast
      with jl show ?thesis by simp
    qed
  }
qed

text \<open>
  C10, on a fresh object with three frames, for the indices 1, 3, -4 and -1.
\<close>

theorem receive_ack_index_bounds_witness:
  "table_ok (SelectiveRepeatARQ 3 2) \<and>
   (\<exists>a' evs. receive_ack (SelectiveRepeatARQ 3 2) 1 = Inr (a', evs)) \<and>
   receive_ack (SelectiveRepeatARQ 3 2) 3 = Inl (IndexError, SelectiveRepeatARQ 3 2, []) \<and>
   receive_ack (SelectiveRepeatARQ 3 2) (- 4) = Inl (IndexError, SelectiveRepeatARQ 3 2, []) \<and>
   (\<exists>a' evs. receive_ack (SelectiveRepeatARQ 3 2) (- 1) = Inr (a', evs) \<and>
      evs = [PrintAck (- 1)] \<and> ack_received a' = [False, False, True])"
proof -
  let ?a = "SelectiveRepeatARQ 3 2"
  have h: "table_ok ?a" by (simp add: table_ok_def SelectiveRepeatARQ_def)
  have t: "total_frames ?a = 3" and ack: "ack_received ?a = [False, False, False]"
    by (simp_all add: SelectiveRepeatARQ_def eval_nat_numeral)
  from receive_ack_index_bounds [OF h, of 1] t
  have c1: "\<exists>a' evs. receive_ack ?a 1 = Inr (a', evs)" by simp
  from receive_ack_index_bounds [OF h, of 3] t
  have c2: "receive_ack ?a 3 = Inl (IndexError, ?a, [])" by simp
  from receive_ack_index_bounds [OF h, of "- 4"] t
  have c3: "receive_ack ?a (- 4) = Inl (IndexError, ?a, [])" by simp
  from receive_ack_index_bounds [OF h, of "- 1"] t ack
  have c4: "\<exists>a' evs. receive_ack ?a (- 1) = Inr (a', evs) \<and>
      evs = [PrintAck (- 1)] \<and> ack_received a' = [False, False, True]" by auto
  from h c1 c2 c3 c4 show ?thesis by blast
qed

end
